theory Spec2Isabelle
  imports Complex_Main "HOL-Library.AList" "HOL-Library.Multiset"
begin

section \<open>The RAG pipeline of SubstrateOS: chunking, embedding, ingestion, retrieval\<close>

text \<open>
  The development embeds the four modules under \<open>src/ai-assistant/rag\<close>
  (\<open>chunking.py\<close>, \<open>embed.py\<close>, \<open>ingest.py\<close>, \<open>retrieve.py\<close>).
  Python \<open>str\<close> values are \<open>string\<close>s whose characters stand for the code points
  below 256; Python \<open>int\<close> is \<open>int\<close> (or \<open>nat\<close> for a counter that only grows from 0);
  Python and numpy floats are idealised as \<open>real\<close>, so no theorem below speaks about
  rounding; the one float32 effect that is modelled is the overflow of a distance in
  the vector index.  Exceptions are values of the type \<open>error\<close>, returned as \<open>Inl\<close>.
\<close>

subsection \<open>Exceptions\<close>

datatype error =
    RuntimeError string
  | ValueError string
  | IndexError
  | AssertionError
  | AttributeError
  | ProviderFailure string

subsection \<open>Python string and list primitives\<close>

text \<open>\<open>str.isspace\<close> on one character, for the code points below 256.\<close>

definition isspace :: "char \<Rightarrow> bool" where
  "isspace c = (let n = (of_char c :: nat) in
     (9 \<le> n \<and> n \<le> 13) \<or> (28 \<le> n \<and> n \<le> 32) \<or> n = 133 \<or> n = 160)"

text \<open>\<open>s.strip()\<close>: leading and trailing whitespace removed.\<close>

definition strip :: "string \<Rightarrow> string" where
  "strip s = rev (dropWhile isspace (rev (dropWhile isspace s)))"

text \<open>\<open>str(n)\<close> for a non-negative integer, as an f-string prints it.\<close>

definition digit_char :: "nat \<Rightarrow> char" where
  "digit_char n = char_of (48 + n)"

fun str_nat :: "nat \<Rightarrow> string" where
  "str_nat n = (if n < 10 then [digit_char n] else str_nat (n div 10) @ [digit_char (n mod 10)])"

declare str_nat.simps [simp del]

text \<open>
  Slice bounds: Python adds the length to a negative bound and then clamps the bound
  into \<open>[0, len]\<close>.
\<close>

definition slice_bound :: "nat \<Rightarrow> int \<Rightarrow> nat" where
  "slice_bound n i = (if i < 0 then nat (max (i + int n) 0) else min (nat i) n)"

text \<open>\<open>xs[lo:hi]\<close>.\<close>

definition slice :: "'a list \<Rightarrow> int \<Rightarrow> int \<Rightarrow> 'a list" where
  "slice xs lo hi =
     (let l = slice_bound (length xs) lo; h = slice_bound (length xs) hi
      in take (h - l) (drop l xs))"

text \<open>\<open>xs[:k]\<close>.\<close>

definition slice_to :: "'a list \<Rightarrow> int \<Rightarrow> 'a list" where
  "slice_to xs k = take (slice_bound (length xs) k) xs"

text \<open>
  \<open>s.rfind(sub, lo, hi)\<close>: the highest index \<open>i\<close> with \<open>lo' \<le> i\<close>,
  \<open>i + len(sub) \<le> hi'\<close> and \<open>s[i : i + len(sub)] = sub\<close>, where \<open>lo'\<close>, \<open>hi'\<close>
  are the slice bounds; \<open>-1\<close> when there is none.
\<close>

definition occurs_at :: "'a list \<Rightarrow> 'a list \<Rightarrow> nat \<Rightarrow> bool" where
  "occurs_at sub s i = (take (length sub) (drop i s) = sub)"

definition rfind :: "string \<Rightarrow> string \<Rightarrow> int \<Rightarrow> int \<Rightarrow> int" where
  "rfind s sub lo hi =
     (let l = slice_bound (length s) lo; h = slice_bound (length s) hi;
          hits = filter (\<lambda>i. i + length sub \<le> h \<and> occurs_at sub s i) [l..<Suc h]
      in if hits = [] then - 1 else int (last hits))"

text \<open>\<open>s.find(sub)\<close>: the lowest index at which \<open>sub\<close> occurs, \<open>-1\<close> when there is none.\<close>

definition find_str :: "string \<Rightarrow> string \<Rightarrow> int" where
  "find_str s sub =
     (case filter (occurs_at sub s) [0..<Suc (length s)] of
        [] \<Rightarrow> - 1
      | i # _ \<Rightarrow> int i)"

subsection \<open>chunking.py: the Chunk dataclass\<close>

datatype mval = MStr string | MInt int

type_synonym metadata = "(string \<times> mval) list"

record chunk =
  chunk_id :: string
  content :: string
  metadata :: metadata
  start_index :: int
  end_index :: int

text \<open>The chunk every strategy appends: id \<open>f"{doc_id}_chunk_{chunk_idx}"\<close> and the
  metadata \<open>{**metadata, "chunk_index": chunk_idx}\<close>.\<close>

definition mk_chunk :: "string \<Rightarrow> nat \<Rightarrow> string \<Rightarrow> metadata \<Rightarrow> int \<Rightarrow> int \<Rightarrow> chunk" where
  "mk_chunk doc_id chunk_idx text md s e =
     \<lparr> chunk_id = doc_id @ ''_chunk_'' @ str_nat chunk_idx,
       content = text,
       metadata = AList.update ''chunk_index'' (MInt (int chunk_idx)) md,
       start_index = s,
       end_index = e \<rparr>"

subsection \<open>chunking.py: FixedSizeChunker\<close>

record fixed_size_chunker =
  chunk_size :: int
  overlap :: int

text \<open>
  One pass of the body of the \<open>while\<close> loop of \<open>FixedSizeChunker.chunk\<close>, from the state
  \<open>(start, chunk_idx, chunks)\<close> to the next one.
\<close>

definition window_end :: "fixed_size_chunker \<Rightarrow> string \<Rightarrow> int \<Rightarrow> int" where
  "window_end self text start =
     (let end = min (start + chunk_size self) (int (length text))
      in if end < int (length text)
         then (let sentence_end = rfind text ''. '' (start + chunk_size self - 50) end
               in if sentence_end > start then sentence_end + 1 else end)
         else end)"

definition fixed_step ::
  "fixed_size_chunker \<Rightarrow> string \<Rightarrow> string \<Rightarrow> metadata \<Rightarrow> int \<times> nat \<times> chunk list \<Rightarrow> int \<times> nat \<times> chunk list" where
  "fixed_step self text doc_id md st =
     (case st of (start, chunk_idx, chunks) \<Rightarrow>
        let end = window_end self text start;
            chunk_text = strip (slice text start end)
        in if chunk_text \<noteq> []
           then (end - overlap self, Suc chunk_idx,
                 chunks @ [mk_chunk doc_id chunk_idx chunk_text md start end])
           else (end - overlap self, chunk_idx, chunks))"

text \<open>
  The loop \<open>while start < len(text)\<close>.  Nothing in the source bounds the number of
  passes, so the loop is a partial function: \<open>None\<close> is the run that never leaves it.
\<close>

partial_function (option) fixed_loop ::
  "fixed_size_chunker \<Rightarrow> string \<Rightarrow> string \<Rightarrow> metadata \<Rightarrow> int \<times> nat \<times> chunk list \<Rightarrow> chunk list option" where
  "fixed_loop self text doc_id md st =
     (if fst st < int (length text)
      then fixed_loop self text doc_id md (fixed_step self text doc_id md st)
      else Some (snd (snd st)))"

definition fixed_chunk :: "fixed_size_chunker \<Rightarrow> string \<Rightarrow> string \<Rightarrow> metadata \<Rightarrow> chunk list option" where
  "fixed_chunk self text doc_id md = fixed_loop self text doc_id md (0, 0, [])"

subsection \<open>chunking.py: SemanticChunker\<close>

record semantic_chunker =
  max_chunk_size :: int
  min_chunk_size :: int

text \<open>
  The lookahead \<open>(?=#{1,3}\s)\<close> of the pattern: one to three \<open>#\<close> followed by a
  whitespace character.
\<close>

definition header_ahead :: "string \<Rightarrow> bool" where
  "header_ahead s =
     list_ex (\<lambda>j. j < length s \<and> list_all (\<lambda>c. c = CHR ''#'') (take j s) \<and> isspace (s ! j))
       [1, 2, 3]"

text \<open>\<open>re.split(r'\n(?=#{1,3}\s)', text)\<close>: the text is cut at every newline that a
  heading follows, and the newline is dropped.\<close>

fun split_sections :: "string \<Rightarrow> string list" where
  "split_sections [] = [[]]"
| "split_sections (c # cs) =
     (if c = CHR 0x0A \<and> header_ahead cs then [] # split_sections cs
      else (case split_sections cs of
              [] \<Rightarrow> [[c]]
            | p # ps \<Rightarrow> (c # p) # ps))"

text \<open>\<open>section.split('\n\n')\<close>: cut at the non-overlapping blank lines, left to right.\<close>

fun split_paragraphs :: "string \<Rightarrow> string list" where
  "split_paragraphs (a # b # cs) =
     (if a = CHR 0x0A \<and> b = CHR 0x0A then [] # split_paragraphs cs
      else (case split_paragraphs (b # cs) of
              [] \<Rightarrow> [[a]]
            | p # ps \<Rightarrow> (a # p) # ps))"
| "split_paragraphs [a] = [[a]]"
| "split_paragraphs [] = [[]]"

text \<open>The local variables of \<open>SemanticChunker.chunk\<close> that the loops update.\<close>

record sem_state =
  chunks_acc :: "chunk list"
  current_chunk :: string
  current_start :: int
  chunk_idx :: nat

text \<open>
  The body that the source writes twice, once per paragraph (joining with a blank line)
  and once per short section (joining with a newline): when the unit does not fit, the
  buffer is appended as a chunk if it has at least \<open>min_chunk_size\<close> characters, and in
  either case the unit replaces the buffer; when it fits, it is joined to the buffer.
\<close>

definition accumulate ::
  "semantic_chunker \<Rightarrow> string \<Rightarrow> string \<Rightarrow> metadata \<Rightarrow> string \<Rightarrow> string \<Rightarrow> sem_state \<Rightarrow> sem_state" where
  "accumulate self text doc_id md sep unit st =
     (if int (length (current_chunk st)) + int (length unit) > max_chunk_size self
      then (let st' =
                  (if int (length (current_chunk st)) \<ge> min_chunk_size self
                   then st\<lparr> chunks_acc := chunks_acc st @
                              [mk_chunk doc_id (chunk_idx st) (strip (current_chunk st)) md
                                 (current_start st)
                                 (current_start st + int (length (current_chunk st)))],
                            chunk_idx := Suc (chunk_idx st) \<rparr>
                   else st)
            in st'\<lparr> current_chunk := unit, current_start := find_str text unit \<rparr>)
      else st\<lparr> current_chunk := current_chunk st @ sep @ unit \<rparr>)"

definition section_step ::
  "semantic_chunker \<Rightarrow> string \<Rightarrow> string \<Rightarrow> metadata \<Rightarrow> string \<Rightarrow> sem_state \<Rightarrow> sem_state" where
  "section_step self text doc_id md section st =
     (if int (length section) > max_chunk_size self
      then fold (accumulate self text doc_id md [CHR 0x0A, CHR 0x0A]) (split_paragraphs section) st
      else accumulate self text doc_id md [CHR 0x0A] section st)"

text \<open>The state after the loop over all sections: \<open>current_chunk\<close> is the final buffer.\<close>

definition sem_loop :: "semantic_chunker \<Rightarrow> string \<Rightarrow> string \<Rightarrow> metadata \<Rightarrow> sem_state" where
  "sem_loop self text doc_id md =
     fold (section_step self text doc_id md) (split_sections text)
       \<lparr> chunks_acc = [], current_chunk = [], current_start = 0, chunk_idx = 0 \<rparr>"

text \<open>\<open>SemanticChunker.chunk\<close>: the loop, then the last chunk under its own guard.\<close>

definition semantic_chunk :: "semantic_chunker \<Rightarrow> string \<Rightarrow> string \<Rightarrow> metadata \<Rightarrow> chunk list" where
  "semantic_chunk self text doc_id md =
     (let st = sem_loop self text doc_id md
      in if int (length (current_chunk st)) \<ge> min_chunk_size self
         then chunks_acc st @
                [mk_chunk doc_id (chunk_idx st) (strip (current_chunk st)) md
                   (current_start st) (int (length text))]
         else chunks_acc st)"

text \<open>\<open>get_chunker("semantic", max_chunk_size=chunk_size)\<close>: the constructor's default
  \<open>min_chunk_size=100\<close> stays.\<close>

definition get_chunker_semantic :: "int \<Rightarrow> semantic_chunker" where
  "get_chunker_semantic max_size = \<lparr> max_chunk_size = max_size, min_chunk_size = 100 \<rparr>"

subsection \<open>embed.py\<close>

type_synonym vec = "real list"

text \<open>
  The two backends are outside the repository: \<open>client.embeddings.create(model, input)\<close>
  followed by reading \<open>item.embedding\<close> of every item of the response, and
  \<open>SentenceTransformer(model).encode(texts)\<close>.  Both are parameters, and either may fail.
\<close>

datatype embedding_model =
    OpenAIEmbedding string "string \<Rightarrow> string list \<Rightarrow> error + vec list"
  | SentenceTransformerEmbedding string "string \<Rightarrow> string list \<Rightarrow> error + vec list"

text \<open>\<open>range(0, n, step)\<close> for a positive step.\<close>

definition range_step :: "nat \<Rightarrow> nat \<Rightarrow> nat list" where
  "range_step n step = map (\<lambda>j. j * step) [0..<(n + step - 1) div step]"

text \<open>\<open>np.array\<close> of a list of vectors: a two-dimensional array when the rows have one
  length (an array of shape \<open>(0,)\<close> for no rows), an error on ragged rows.\<close>

definition np_array :: "vec list \<Rightarrow> error + vec list" where
  "np_array rows =
     (if list_all (\<lambda>v. length v = length (hd rows)) rows then Inr rows
      else Inl (ValueError ''inhomogeneous shape''))"

text \<open>The loop of \<open>OpenAIEmbedding.embed\<close> over the batch starts \<open>i\<close>; a failing call
  of the provider ends the whole \<open>embed\<close>.\<close>

fun embed_batches ::
  "(string list \<Rightarrow> error + vec list) \<Rightarrow> string list \<Rightarrow> nat list \<Rightarrow> vec list \<Rightarrow> error + vec list" where
  "embed_batches create texts [] all_embeddings = Inr all_embeddings"
| "embed_batches create texts (i # starts) all_embeddings =
     (let batch = take 100 (drop i texts)
      in case create batch of
           Inl e \<Rightarrow> Inl e
         | Inr embeddings \<Rightarrow> embed_batches create texts starts (all_embeddings @ embeddings))"

fun embed :: "embedding_model \<Rightarrow> string list \<Rightarrow> error + vec list" where
  "embed (OpenAIEmbedding model create) texts =
     (case embed_batches (create model) texts (range_step (length texts) 100) [] of
        Inl e \<Rightarrow> Inl e
      | Inr all_embeddings \<Rightarrow> np_array all_embeddings)"
| "embed (SentenceTransformerEmbedding model encode) texts = encode model texts"

record backends =
  openai_create :: "string \<Rightarrow> string list \<Rightarrow> error + vec list"
  st_encode :: "string \<Rightarrow> string list \<Rightarrow> error + vec list"

definition get_embedding_model :: "backends \<Rightarrow> string \<Rightarrow> string \<Rightarrow> error + embedding_model" where
  "get_embedding_model b model_type model =
     (if model_type = ''openai'' then Inr (OpenAIEmbedding model (openai_create b))
      else if model_type = ''sentence-transformers''
      then Inr (SentenceTransformerEmbedding model (st_encode b))
      else Inl (ValueError (''Unknown embedding model type: '' @ model_type)))"

subsection \<open>The vector index (faiss.IndexFlatL2) and the snapshot files\<close>

text \<open>
  The index library is outside the repository.  \<open>IndexFlatL2(d)\<close> stores the added rows
  in insertion order; \<open>add\<close> and \<open>search\<close> assert that the rows have dimension \<open>d\<close>, and
  \<open>search\<close> that \<open>k\<close> is positive.  \<open>search(q, k)\<close> yields exactly \<open>k\<close> pairs of a squared
  L2 distance and a row number, nearest first.  The result starts out filled with the
  largest float32 as distance and \<open>-1\<close> as row number, and a row enters it only with a
  distance below the distance that it replaces; so where fewer than \<open>k\<close> rows enter,
  the tail keeps the row number \<open>-1\<close>.

  The distances are float32 numbers.  They are idealised as the real squared distance
  with one exception, the overflow: a squared distance above the largest float32 is
  infinite, here \<open>None\<close>.  A row at such a distance never enters the result.
\<close>

record faiss_index =
  d :: nat
  xb :: "vec list"

definition astype_float32 :: "vec \<Rightarrow> vec" where
  "astype_float32 v = v"

definition index_add :: "faiss_index \<Rightarrow> vec list \<Rightarrow> error + faiss_index" where
  "index_add ix rows =
     (if list_all (\<lambda>v. length v = d ix) rows then Inr (ix\<lparr> xb := xb ix @ rows \<rparr>)
      else Inl AssertionError)"

definition float32_max :: real where
  "float32_max = 340282346638528859811704183484516925440"

definition l2_sqr :: "vec \<Rightarrow> vec \<Rightarrow> real option" where
  "l2_sqr x y =
     (let s = (\<Sum>(a, b) \<leftarrow> zip x y. (a - b)\<^sup>2)
      in if s \<le> float32_max then Some s else None)"

text \<open>The entry that the row \<open>v\<close> with number \<open>i\<close> contributes to a search for \<open>q\<close>, if any;
  and the entries of all rows of an index, in the order of the rows.\<close>

definition row_entry :: "vec \<Rightarrow> nat \<times> vec \<Rightarrow> (real \<times> int) list" where
  "row_entry q p =
     (case p of (i, v) \<Rightarrow>
        (case l2_sqr q v of
           Some distance \<Rightarrow> if distance < float32_max then [(distance, int i)] else []
         | None \<Rightarrow> []))"

definition scored_rows :: "faiss_index \<Rightarrow> vec \<Rightarrow> (real \<times> int) list" where
  "scored_rows ix q = concat (map (row_entry q) (enumerate 0 (xb ix)))"

definition index_search :: "faiss_index \<Rightarrow> vec \<Rightarrow> int \<Rightarrow> error + (real \<times> int) list" where
  "index_search ix q k =
     (if length q \<noteq> d ix \<or> k \<le> 0 then Inl AssertionError
      else (let nearest = take (nat k) (sort_key fst (scored_rows ix q))
            in Inr (nearest @ replicate (nat k - length nearest) (float32_max, - 1))))"

text \<open>A chunk record of \<open>chunks.json\<close>: a JSON object in which each of the three keys
  that the retriever reads with \<open>.get\<close> may be missing.\<close>

record chunk_record =
  rec_id :: "string option"
  rec_content :: "string option"
  rec_metadata :: "metadata option"

record manifest =
  ingested_at :: string
  source :: string
  manifest_chunk_size :: int
  chunk_overlap :: int
  total_chunks :: nat
  manifest_embedding_model :: string
  dimensions :: nat

text \<open>The three files that one ingestion run writes under \<open>output_path\<close>.\<close>

record snapshot =
  index_faiss :: faiss_index
  chunks_json :: "chunk_record list"
  metadata_json :: manifest

subsection \<open>ingest.py\<close>

text \<open>
  What the pipeline reads from its surroundings: the file system (paths are strings,
  taken as \<open>pathlib\<close> prints them), the environment variables, the first twelve hex
  digits of the MD5 of a path, and the clock, whose \<open>n\<close>-th reading of the run is
  \<open>utcnow_iso n\<close>.  Creating the output directory, importing the index library and
  writing the three files are taken to succeed; a file that cannot be decoded as
  UTF-8 reads as \<open>None\<close>.
\<close>

record environment =
  is_file :: "string \<Rightarrow> bool"
  read_text :: "string \<Rightarrow> string option"
  rglob :: "string \<Rightarrow> string list"
  getenv :: "string \<Rightarrow> string option"
  md5_hexdigest :: "string \<Rightarrow> string"
  utcnow_iso :: "nat \<Rightarrow> string"
  embedding_backends :: backends

text \<open>\<open>os.getenv(name, default)\<close>.\<close>

definition getenv_default :: "environment \<Rightarrow> string \<Rightarrow> string \<Rightarrow> string" where
  "getenv_default env name dflt = (case getenv env name of None \<Rightarrow> dflt | Some v \<Rightarrow> v)"

text \<open>\<open>str.lower\<close> on the code points below 256.\<close>

definition lower_char :: "char \<Rightarrow> char" where
  "lower_char c = (let n = (of_char c :: nat) in
     if (65 \<le> n \<and> n \<le> 90) \<or> (192 \<le> n \<and> n \<le> 222 \<and> n \<noteq> 215) then char_of (n + 32) else c)"

definition lower :: "string \<Rightarrow> string" where
  "lower s = map lower_char s"

text \<open>\<open>Path.suffix\<close>: the last dot of the final path component and what follows it,
  unless that dot starts or ends the component.\<close>

definition path_name :: "string \<Rightarrow> string" where
  "path_name p = rev (takeWhile (\<lambda>c. c \<noteq> CHR ''/'') (rev p))"

definition path_suffix :: "string \<Rightarrow> string" where
  "path_suffix p =
     (let name = path_name p; i = rfind name ''.'' 0 (int (length name))
      in if 0 < i \<and> i < int (length name) - 1 then drop (nat i) name else [])"

text \<open>\<open>pattern in s\<close> on strings.\<close>

definition contains :: "string \<Rightarrow> string \<Rightarrow> bool" where
  "contains s pattern = list_ex (occurs_at pattern s) [0..<Suc (length s)]"

text \<open>
  \<open>ingest_file\<close>.  A file that is not valid UTF-8 reads as \<open>None\<close>.  The clock is read
  only for a file that reaches the metadata, so the function returns the number of
  the next reading with the chunks.
\<close>

definition detect_file_type :: "string \<Rightarrow> string" where
  "detect_file_type suffix =
     (if suffix \<in> set [''.md'', ''.txt'', ''.rst''] then ''text''
      else if suffix \<in> set [''.py'', ''.ts'', ''.js'', ''.tsx'', ''.jsx''] then ''code''
      else if suffix = ''.json'' then ''json''
      else ''text'')"

definition ingest_file ::
  "environment \<Rightarrow> string \<Rightarrow> semantic_chunker \<Rightarrow> string \<Rightarrow> nat \<Rightarrow> chunk list \<times> nat" where
  "ingest_file env file_path chunker file_type tick =
     (let file_type = (if file_type = ''auto'' then detect_file_type (lower (path_suffix file_path))
                       else file_type)
      in case read_text env file_path of
           None \<Rightarrow> ([], tick)
         | Some text \<Rightarrow>
             if strip text = [] then ([], tick)
             else (let doc_id = take 12 (md5_hexdigest env file_path);
                       md = [(''source'', MStr file_path),
                             (''file_type'', MStr file_type),
                             (''size'', MInt (int (length text))),
                             (''ingested_at'', MStr (utcnow_iso env tick))]
                   in (semantic_chunk chunker text doc_id md, Suc tick)))"

text \<open>\<open>ingest_directory\<close> with its default extensions and exclude patterns, as
  \<open>ingest_documents\<close> calls it.\<close>

definition default_extensions :: "string list" where
  "default_extensions = [''.md'', ''.txt'', ''.py'', ''.ts'', ''.js'', ''.tsx'', ''.rst'']"

definition default_exclude_patterns :: "string list" where
  "default_exclude_patterns = [''node_modules'', ''__pycache__'', ''.git'', ''dist'']"

fun ingest_paths ::
  "environment \<Rightarrow> semantic_chunker \<Rightarrow> string list \<Rightarrow> chunk list \<Rightarrow> nat \<Rightarrow> chunk list \<times> nat" where
  "ingest_paths env chunker [] all_chunks tick = (all_chunks, tick)"
| "ingest_paths env chunker (file_path # rest) all_chunks tick =
     (if list_ex (contains file_path) default_exclude_patterns
      then ingest_paths env chunker rest all_chunks tick
      else if lower (path_suffix file_path) \<notin> set default_extensions
      then ingest_paths env chunker rest all_chunks tick
      else if is_file env file_path
      then (case ingest_file env file_path chunker ''auto'' tick of
              (chunks, tick') \<Rightarrow> ingest_paths env chunker rest (all_chunks @ chunks) tick')
      else ingest_paths env chunker rest all_chunks tick)"

definition ingest_directory ::
  "environment \<Rightarrow> string \<Rightarrow> semantic_chunker \<Rightarrow> nat \<Rightarrow> chunk list \<times> nat" where
  "ingest_directory env dir_path chunker tick =
     ingest_paths env chunker (rglob env dir_path) [] tick"

text \<open>The chunks that \<open>ingest_documents\<close> collects before it looks at anything else.\<close>

definition collect_chunks :: "environment \<Rightarrow> string \<Rightarrow> int \<Rightarrow> chunk list \<times> nat" where
  "collect_chunks env src max_size =
     (let chunker = get_chunker_semantic max_size
      in if is_file env src then ingest_file env src chunker ''auto'' 0
         else ingest_directory env src chunker 0)"

record ingest_result =
  documents :: nat
  chunks_created :: nat
  errors :: "string list"

definition chunk_data :: "chunk list \<Rightarrow> chunk_record list" where
  "chunk_data cs =
     map (\<lambda>c. \<lparr> rec_id = Some (chunk_id c), rec_content = Some (content c),
                rec_metadata = Some (metadata c) \<rparr>) cs"

text \<open>\<open>embeddings.shape[1]\<close>: an array without rows has the shape \<open>(0,)\<close>.\<close>

definition shape1 :: "vec list \<Rightarrow> error + nat" where
  "shape1 rows = (case rows of [] \<Rightarrow> Inl IndexError | v # _ \<Rightarrow> Inr (length v))"

text \<open>
  \<open>ingest_documents\<close>: the returned dictionary, and the snapshot written under
  \<open>output_path\<close> (\<open>None\<close> when the run returns before it writes).
\<close>

definition ingest_documents ::
  "environment \<Rightarrow> string \<Rightarrow> int \<Rightarrow> int \<Rightarrow> string \<Rightarrow> error + (ingest_result \<times> snapshot option)" where
  "ingest_documents env src max_size overlap_arg output_path =
     (case collect_chunks env src max_size of (chunks, tick) \<Rightarrow>
      if chunks = []
      then Inr (\<lparr> documents = 0, chunks_created = 0, errors = [''No documents found''] \<rparr>, None)
      else
       (case get_embedding_model (embedding_backends env)
               (getenv_default env ''EMBEDDING_MODEL_TYPE'' ''openai'')
               (getenv_default env ''EMBEDDING_MODEL'' ''text-embedding-3-small'') of
          Inl e \<Rightarrow> Inl e
        | Inr embedding_model \<Rightarrow>
           (case embed embedding_model (map content chunks) of
              Inl e \<Rightarrow> Inl e
            | Inr embeddings \<Rightarrow>
               (case shape1 embeddings of
                  Inl e \<Rightarrow> Inl e
                | Inr dimension \<Rightarrow>
                   (case index_add \<lparr> d = dimension, xb = [] \<rparr> (map astype_float32 embeddings) of
                      Inl e \<Rightarrow> Inl e
                    | Inr index \<Rightarrow>
                       Inr (\<lparr> documents =
                                  length (remdups (map (\<lambda>c. map_of (metadata c) ''source'') chunks)),
                                chunks_created = length chunks,
                                errors = [] \<rparr>,
                            Some \<lparr> index_faiss = index,
                                   chunks_json = chunk_data chunks,
                                   metadata_json =
                                     \<lparr> ingested_at = utcnow_iso env tick,
                                       source = src,
                                       manifest_chunk_size = max_size,
                                       chunk_overlap = overlap_arg,
                                       total_chunks = length chunks,
                                       manifest_embedding_model =
                                         getenv_default env ''EMBEDDING_MODEL'' ''text-embedding-3-small'',
                                       dimensions = dimension \<rparr> \<rparr>))))))"

subsection \<open>retrieve.py: RAGRetriever\<close>

record retrieval_result =
  result_id :: string
  result_content :: string
  score :: real
  result_metadata :: metadata

record retriever =
  vector_path :: string
  index :: "faiss_index option"
  chunks :: "chunk_record list"
  embedding_model :: "embedding_model option"

text \<open>What lies under \<open>vector_path\<close> when the retriever is constructed: each of the two
  files it reads is there or not.\<close>

record vector_dir =
  index_file :: "faiss_index option"
  chunks_file :: "chunk_record list option"

text \<open>\<open>__init__\<close> followed by \<open>_load_index\<close>.\<close>

definition load_index :: "environment \<Rightarrow> vector_dir \<Rightarrow> retriever \<Rightarrow> error + retriever" where
  "load_index env dir self =
     (case index_file dir of
        None \<Rightarrow> Inr self
      | Some ix \<Rightarrow>
          (let self = self\<lparr> index := Some ix \<rparr>;
               self = (case chunks_file dir of
                         Some cs \<Rightarrow> self\<lparr> chunks := cs \<rparr>
                       | None \<Rightarrow> self)
           in case get_embedding_model (embedding_backends env)
                     (getenv_default env ''EMBEDDING_MODEL_TYPE'' ''openai'')
                     (getenv_default env ''EMBEDDING_MODEL'' ''text-embedding-3-small'') of
                Inl e \<Rightarrow> Inl e
              | Inr m \<Rightarrow> Inr (self\<lparr> embedding_model := Some m \<rparr>)))"

definition new_retriever :: "environment \<Rightarrow> vector_dir \<Rightarrow> string \<Rightarrow> error + retriever" where
  "new_retriever env dir path =
     load_index env dir
       \<lparr> vector_path = path, index = None, chunks = [], embedding_model = None \<rparr>"

text \<open>The result built from the chunk record at row \<open>idx\<close>, with the defaults of \<open>.get\<close>.\<close>

definition result_of :: "chunk_record \<Rightarrow> nat \<Rightarrow> real \<Rightarrow> retrieval_result" where
  "result_of chunk idx sc =
     \<lparr> result_id = (case rec_id chunk of Some s \<Rightarrow> s | None \<Rightarrow> ''chunk_'' @ str_nat idx),
       result_content = (case rec_content chunk of Some s \<Rightarrow> s | None \<Rightarrow> []),
       score = sc,
       result_metadata = (case rec_metadata chunk of Some m \<Rightarrow> m | None \<Rightarrow> []) \<rparr>"

text \<open>The loop "Convert to results" over the pairs that the search returned.\<close>

fun to_results :: "chunk_record list \<Rightarrow> real \<Rightarrow> (real \<times> int) list \<Rightarrow> retrieval_result list" where
  "to_results cs threshold [] = []"
| "to_results cs threshold ((distance, idx) # rest) =
     (if idx < 0 \<or> idx \<ge> int (length cs) then to_results cs threshold rest
      else (let chunk = cs ! nat idx;
                sc = 1 / (1 + distance)
            in if sc \<ge> threshold
               then result_of chunk (nat idx) sc # to_results cs threshold rest
               else to_results cs threshold rest))"

text \<open>\<open>s.split()\<close>: the maximal runs of characters that are not whitespace.\<close>

fun fields :: "string \<Rightarrow> string list" where
  "fields [] = [[]]"
| "fields (c # cs) =
     (if isspace c then [] # fields cs
      else (case fields cs of
              [] \<Rightarrow> [[c]]
            | p # ps \<Rightarrow> (c # p) # ps))"

definition split_ws :: "string \<Rightarrow> string list" where
  "split_ws s = filter (\<lambda>w. w \<noteq> []) (fields s)"

text \<open>\<open>len(set(a) & set(b))\<close> for two lists of words.\<close>

definition common_words :: "string list \<Rightarrow> string list \<Rightarrow> nat" where
  "common_words a b = length (filter (\<lambda>w. w \<in> set b) (remdups a))"

text \<open>\<open>sorted(xs, key=score, reverse=True)\<close> and \<open>xs.sort(key=score, reverse=True)\<close>:
  descending, and stable (equal scores keep their order).\<close>

definition sort_desc :: "('a \<Rightarrow> real) \<Rightarrow> 'a list \<Rightarrow> 'a list" where
  "sort_desc key xs = sort_key (\<lambda>x. - key x) xs"

definition rerank :: "string \<Rightarrow> retrieval_result list \<Rightarrow> int \<Rightarrow> retrieval_result list" where
  "rerank query results top_k =
     (let query_words = split_ws (lower query);
          boosted = map (\<lambda>r. r\<lparr> score :=
                          score r + real (common_words query_words (split_ws (lower (result_content r)))) * 0.05 \<rparr>)
                      results
      in slice_to (sort_desc score boosted) top_k)"

definition retrieve ::
  "retriever \<Rightarrow> string \<Rightarrow> int \<Rightarrow> real \<Rightarrow> bool \<Rightarrow> error + retrieval_result list" where
  "retrieve self query top_k threshold do_rerank =
     (case index self of
        None \<Rightarrow> Inl (RuntimeError ''Index not loaded'')
      | Some ix \<Rightarrow>
         (case embedding_model self of
            None \<Rightarrow> Inl AttributeError
          | Some m \<Rightarrow>
             (case embed m [query] of
                Inl e \<Rightarrow> Inl e
              | Inr [] \<Rightarrow> Inl IndexError
              | Inr (query_embedding # _) \<Rightarrow>
                 (let search_k = (if do_rerank then top_k * 3 else top_k)
                  in case index_search ix (astype_float32 query_embedding) search_k of
                       Inl e \<Rightarrow> Inl e
                     | Inr hits \<Rightarrow>
                        (let results = to_results (chunks self) threshold hits;
                             results = (if do_rerank \<and> int (length results) > top_k
                                        then rerank query results top_k else results)
                         in Inr (slice_to results top_k))))))"

subsection \<open>retrieve.py: HybridRetriever\<close>

text \<open>\<open>_keyword_search\<close>: one pass of the loop over \<open>enumerate(self.chunks)\<close> scores a
  chunk with the fraction of the query's words that it contains, if it contains at
  least one; the passes together give the list \<open>scores\<close>.\<close>

definition keyword_entry :: "string list \<Rightarrow> nat \<times> chunk_record \<Rightarrow> (nat \<times> real) list" where
  "keyword_entry query_words p =
     (case p of (i, chunk) \<Rightarrow>
        let text = lower (case rec_content chunk of Some s \<Rightarrow> s | None \<Rightarrow> []);
            matches = common_words query_words (split_ws text)
        in if matches > 0
           then [(i, real matches / real (length (remdups query_words)))]
           else [])"

definition keyword_scores :: "string list \<Rightarrow> chunk_record list \<Rightarrow> (nat \<times> real) list" where
  "keyword_scores query_words cs = concat (map (keyword_entry query_words) (enumerate 0 cs))"

definition keyword_search :: "retriever \<Rightarrow> string \<Rightarrow> int \<Rightarrow> retrieval_result list" where
  "keyword_search self query top_k =
     (let query_words = split_ws (lower query);
          scores = sort_desc snd (keyword_scores query_words (chunks self))
      in map (\<lambda>(idx, sc). result_of (chunks self ! idx) idx sc) (slice_to scores top_k))"

text \<open>
  The dictionary \<open>result_map\<close> is an association list in insertion order: storing
  under a key that is present keeps the key's place (\<open>AList.update\<close>).
\<close>

fun merge_semantic ::
  "real \<Rightarrow> retrieval_result list \<Rightarrow> (string \<times> retrieval_result) list \<Rightarrow> (string \<times> retrieval_result) list" where
  "merge_semantic w [] result_map = result_map"
| "merge_semantic w (r # rs) result_map =
     merge_semantic w rs (AList.update (result_id r) (r\<lparr> score := score r * w \<rparr>) result_map)"

fun merge_keyword ::
  "real \<Rightarrow> retrieval_result list \<Rightarrow> (string \<times> retrieval_result) list \<Rightarrow> (string \<times> retrieval_result) list" where
  "merge_keyword w [] result_map = result_map"
| "merge_keyword w (r # rs) result_map =
     merge_keyword w rs
       (case map_of result_map (result_id r) of
          Some old \<Rightarrow> AList.update (result_id r) (old\<lparr> score := score old + score r * (1 - w) \<rparr>) result_map
        | None \<Rightarrow> AList.update (result_id r) (r\<lparr> score := score r * (1 - w) \<rparr>) result_map)"

definition hybrid_retrieve ::
  "retriever \<Rightarrow> string \<Rightarrow> int \<Rightarrow> real \<Rightarrow> bool \<Rightarrow> real \<Rightarrow> error + retrieval_result list" where
  "hybrid_retrieve self query top_k threshold do_rerank semantic_weight =
     (case retrieve self query (top_k * 2) threshold False of
        Inl e \<Rightarrow> Inl e
      | Inr semantic_results \<Rightarrow>
         (let keyword_results = keyword_search self query (top_k * 2);
              result_map = merge_keyword semantic_weight keyword_results
                             (merge_semantic semantic_weight semantic_results []);
              results = sort_desc score (map snd result_map)
          in Inr (slice_to results top_k)))"

subsection \<open>Notions used in the statements\<close>

text \<open>A snapshot with another \<open>chunk_overlap\<close> in its manifest and nothing else changed.\<close>

definition with_overlap :: "int \<Rightarrow> snapshot \<Rightarrow> snapshot" where
  "with_overlap ov s = s\<lparr> metadata_json := (metadata_json s)\<lparr> chunk_overlap := ov \<rparr> \<rparr>"

text \<open>The ids under which the chunk records are returned, row by row.\<close>

definition chunk_ids :: "chunk_record list \<Rightarrow> string list" where
  "chunk_ids cs = map (\<lambda>(i, c). result_id (result_of c i 0)) (enumerate 0 cs)"

subsection \<open>Concrete surroundings for the examples\<close>

text \<open>An environment without any file, whose hosted embedding backend maps a text to
  the one-dimensional vector of its length.\<close>

definition empty_env :: environment where
  "empty_env = \<lparr> is_file = (\<lambda>p. False), read_text = (\<lambda>p. None), rglob = (\<lambda>p. []),
      getenv = (\<lambda>n. None), md5_hexdigest = (\<lambda>p. ''0123456789abcdef''), utcnow_iso = (\<lambda>n. ''t''),
      embedding_backends = \<lparr> openai_create = (\<lambda>m b. Inr (map (\<lambda>t. [real (length t)]) b)),
                              st_encode = (\<lambda>m b. Inl (ProviderFailure ''none'')) \<rparr> \<rparr>"

text \<open>The same environment with one markdown file of 120 characters.\<close>

definition one_file_env :: environment where
  "one_file_env = empty_env\<lparr> is_file := (\<lambda>p. p = ''notes.md''),
      read_text := (\<lambda>p. if p = ''notes.md'' then Some (replicate 120 (CHR ''a'')) else None) \<rparr>"

text \<open>The same environment with one markdown file that holds the text \<open>hello\<close>.\<close>

definition short_file_env :: environment where
  "short_file_env = empty_env\<lparr> is_file := (\<lambda>p. p = ''notes.md''),
      read_text := (\<lambda>p. if p = ''notes.md'' then Some ''hello'' else None) \<rparr>"

text \<open>A loaded retriever with two chunks; its embedder maps every text to the vector \<open>[0]\<close>,
  so the second chunk is the nearer one for every query.\<close>

definition demo_retriever :: retriever where
  "demo_retriever =
     \<lparr> vector_path = ''./data/vectors'',
       index = Some \<lparr> d = 1, xb = [[5], [0]] \<rparr>,
       chunks = [\<lparr> rec_id = Some ''c0'', rec_content = Some ''alpha beta'', rec_metadata = Some [] \<rparr>,
                 \<lparr> rec_id = Some ''c1'', rec_content = Some ''alpha gamma'', rec_metadata = Some [] \<rparr>],
       embedding_model = Some (OpenAIEmbedding ''m'' (\<lambda>m batch. Inr (map (\<lambda>t. [0]) batch))) \<rparr>"


text \<open>An embedding backend with a call-size limit: it answers a call with 1 to 100
  texts, each with the one-dimensional vector of its length, and refuses any other.\<close>

definition limited_create :: "string \<Rightarrow> string list \<Rightarrow> error + vec list" where
  "limited_create m batch =
     (if batch \<noteq> [] \<and> length batch \<le> 100 then Inr (map (\<lambda>t. [real (length t)]) batch)
      else Inl (ProviderFailure ''call size''))"

section \<open>Properties\<close>

subsection \<open>FixedSizeChunker: the loop does not end when the overlap is positive\<close>

text \<open>
  Every pass ends with \<open>start = end - overlap\<close>, and \<open>end\<close> never exceeds the length of
  the text.  With a positive overlap the new \<open>start\<close> is therefore below the length
  again, also after the window that reached the end of the text, so the loop condition
  never fails.
\<close>

lemma slice_bound_le: "slice_bound n i \<le> n"
  by (auto simp: slice_bound_def)

lemma rfind_upper: "rfind s sub lo hi + int (length sub) \<le> int (length s) \<or> rfind s sub lo hi = - 1"
proof (cases "filter (\<lambda>i. i + length sub \<le> slice_bound (length s) hi \<and> occurs_at sub s i) [slice_bound (length s) lo..<Suc (slice_bound (length s) hi)] = []")
  case True
  then show ?thesis by (simp add: rfind_def Let_def)
next
  case False
  let ?hits = "filter (\<lambda>i. i + length sub \<le> slice_bound (length s) hi \<and> occurs_at sub s i) [slice_bound (length s) lo..<Suc (slice_bound (length s) hi)]"
  from False have "last ?hits \<in> set ?hits" by (rule last_in_set)
  then have "last ?hits + length sub \<le> slice_bound (length s) hi"
    by (simp only: set_filter mem_Collect_eq)
  also have "\<dots> \<le> length s" by (rule slice_bound_le)
  finally have "int (last ?hits) + int (length sub) \<le> int (length s)" by linarith
  with False show ?thesis by (simp add: rfind_def Let_def)
qed

lemma window_end_le: "window_end self text start \<le> int (length text)"
  using rfind_upper [of "text" "''. ''" "start + chunk_size self - 50" "min (start + chunk_size self) (int (length text))"]
  by (auto simp: window_end_def Let_def)

lemma fst_fixed_step: "fst (fixed_step self text doc_id md st) = window_end self text (fst st) - overlap self"
  by (cases st) (simp add: fixed_step_def Let_def)

lemma fixed_step_stays:
  assumes "0 < overlap self"
  shows "fst (fixed_step self text doc_id md st) < int (length text)"
  using assms window_end_le [of self "text" "fst st"] by (simp add: fst_fixed_step)

lemma fixed_loop_no_exit:
  assumes "fixed_loop self t doc_id md st = Some y"
  shows "0 < overlap self \<longrightarrow> \<not> fst st < int (length t)"
  using assms
proof (rule fixed_loop.raw_induct [rotated 1,
    where P = "\<lambda>self t doc_id md st y. 0 < overlap self \<longrightarrow> \<not> fst st < int (length t)"])
  fix f self' t' doc_id' md' st' y'
  assume IH: "\<And>self t doc_id md st y. f self t doc_id md st = Some y \<Longrightarrow>
                0 < overlap self \<longrightarrow> \<not> fst st < int (length t)"
    and body: "(if fst st' < int (length t')
                then f self' t' doc_id' md' (fixed_step self' t' doc_id' md' st')
                else Some (snd (snd st'))) = Some y'"
  show "0 < overlap self' \<longrightarrow> \<not> fst st' < int (length t')"
  proof (intro impI notI)
    assume ov: "0 < overlap self'" and lt: "fst st' < int (length t')"
    from body lt have "f self' t' doc_id' md' (fixed_step self' t' doc_id' md' st') = Some y'"
      by simp
    from IH [OF this] ov fixed_step_stays [OF ov] show False by blast
  qed
qed

lemma fixed_chunk_diverges:
  assumes "0 < overlap self" "text \<noteq> []"
  shows "fixed_chunk self text doc_id md = None"
proof (cases "fixed_chunk self text doc_id md")
  case None then show ?thesis .
next
  case (Some y)
  then have "fixed_loop self text doc_id md (0, 0, []) = Some y" by (simp add: fixed_chunk_def)
  from fixed_loop_no_exit [OF this] assms show ?thesis by simp
qed

text \<open>
  Claim C2 says that \<open>chunk\<close> terminates whenever \<open>0 \<le> overlap < chunk_size\<close>.  With the
  constructor's own defaults (\<open>chunk_size=512\<close>, \<open>overlap=50\<close>) and the text \<open>abc\<close> the
  loop never ends: the model's value is \<open>None\<close>, the run without a result.
\<close>

theorem fixed_chunk_defaults_diverge:
  "fixed_chunk \<lparr> chunk_size = 512, overlap = 50 \<rparr> ''abc'' ''doc'' [] = None"
  by (rule fixed_chunk_diverges) simp_all

subsection \<open>OpenAIEmbedding.embed: batching keeps length and order\<close>

lemma range_step_100: "range_step n 100 = map (\<lambda>j. j * 100) [0..<0 + (n + 99) div 100]"
  by (simp add: range_step_def add.commute)

lemma take_batches:
  "take 100 (drop (a * 100) texts) @ take (100 * n) (drop (100 * Suc a) texts)
     = take (100 * Suc n) (drop (100 * a) texts)"
proof -
  have "drop (100 * Suc a) texts = drop 100 (drop (a * 100) texts)"
    by (simp add: add.commute mult.commute)
  moreover have "take (100 * Suc n) (drop (100 * a) texts)
      = take (100 + 100 * n) (drop (a * 100) texts)"
    by (simp add: mult.commute)
  ultimately show ?thesis
    by (simp only: take_add)
qed

lemma embed_batches_aligned:
  assumes provider: "\<And>batch. batch \<noteq> [] \<Longrightarrow> length batch \<le> 100 \<Longrightarrow> create batch = Inr (map e batch)"
    and bound: "100 * (a + n) < length texts + 100"
  shows "embed_batches create texts (map (\<lambda>j. j * 100) [a..<a + n]) acc
           = Inr (acc @ map e (take (100 * n) (drop (100 * a) texts)))"
  using bound
proof (induction n arbitrary: a acc)
  case 0
  then show ?case by simp
next
  case (Suc n)
  have upt: "[a..<a + Suc n] = a # [Suc a..<Suc a + n]"
    by (simp add: upt_rec)
  from Suc.prems have inside: "a * 100 < length texts" by simp
  have call: "create (take 100 (drop (a * 100) texts))
      = Inr (map e (take 100 (drop (a * 100) texts)))"
    using inside by (intro provider) simp_all
  have "embed_batches create texts (map (\<lambda>j. j * 100) [a..<a + Suc n]) acc
      = embed_batches create texts (map (\<lambda>j. j * 100) [Suc a..<Suc a + n])
          (acc @ map e (take 100 (drop (a * 100) texts)))"
    by (simp only: upt list.map embed_batches.simps Let_def call sum.case)
  also have "\<dots> = Inr ((acc @ map e (take 100 (drop (a * 100) texts)))
                       @ map e (take (100 * n) (drop (100 * Suc a) texts)))"
    using Suc.prems by (intro Suc.IH) simp
  also have "\<dots> = Inr (acc @ map e (take (100 * Suc n) (drop (100 * a) texts)))"
    by (simp only: append_assoc map_append [symmetric] take_batches)
  finally show ?case .
qed

lemma np_array_uniform:
  assumes "\<And>v. v \<in> set rows \<Longrightarrow> length v = n"
  shows "np_array rows = Inr rows"
proof (cases rows)
  case Nil
  then show ?thesis by (simp add: np_array_def)
next
  case (Cons v vs)
  then have "list_all (\<lambda>u. length u = length (hd rows)) rows"
    using assms by (auto simp: list_all_iff)
  then show ?thesis by (simp add: np_array_def)
qed

lemma embed_openai_map:
  assumes "\<And>batch. batch \<noteq> [] \<Longrightarrow> length batch \<le> 100 \<Longrightarrow> create model batch = Inr (map e batch)"
    and "\<And>t. t \<in> set texts \<Longrightarrow> length (e t) = n"
  shows "embed (OpenAIEmbedding model create) texts = Inr (map e texts)"
proof -
  let ?n = "(length texts + 99) div 100"
  have cover: "length texts \<le> 100 * ?n" by presburger
  have bound: "100 * (0 + ?n) < length texts + 100" by presburger
  have "embed_batches (create model) texts (map (\<lambda>j. j * 100) [0..<0 + ?n]) []
          = Inr ([] @ map e (take (100 * ?n) (drop (100 * 0) texts)))"
    by (rule embed_batches_aligned [OF assms(1) bound])
  with cover have "embed_batches (create model) texts (range_step (length texts) 100) []
               = Inr (map e texts)"
    by (simp add: range_step_100)
  moreover have "np_array (map e texts) = Inr (map e texts)"
    by (rule np_array_uniform [of _ n]) (auto simp: assms(2))
  ultimately show ?thesis by simp
qed

text \<open>
  Claim C7: when the provider answers every batch that \<open>embed\<close> can send it, a batch of
  1 to 100 texts, with one embedding per input, in order (\<open>create model batch = map e batch\<close>,
  the embeddings of the texts all of one dimension), \<open>embed\<close> returns for a list of
  texts of any length the list of their embeddings, in order; so the output has the
  length of the input and its \<open>i\<close>-th vector is the embedding of the \<open>i\<close>-th text,
  whatever the number of batches.  Nothing is asked of the provider on a longer list.
\<close>

theorem embed_openai_aligned:
  assumes "\<And>batch. batch \<noteq> [] \<Longrightarrow> length batch \<le> 100 \<Longrightarrow> create model batch = Inr (map e batch)"
    and "\<And>t. t \<in> set texts \<Longrightarrow> length (e t) = n"
  shows "embed (OpenAIEmbedding model create) texts = Inr (map e texts)"
  using assms by (rule embed_openai_map)

text \<open>
  250 texts and the backend that refuses a call with more than 100 of them: the
  texts go out in three batches.
\<close>

theorem embed_openai_aligned_witness:
  "limited_create ''m'' (map str_nat [0..<250]) = Inl (ProviderFailure ''call size'')
   \<and> embed (OpenAIEmbedding ''m'' limited_create) (map str_nat [0..<250])
       = Inr (map (\<lambda>t. [real (length t)]) (map str_nat [0..<250]))"
proof -
  have "limited_create ''m'' batch = Inr (map (\<lambda>t. [real (length t)]) batch)"
    if "batch \<noteq> []" "length batch \<le> 100" for batch
    using that by (simp add: limited_create_def)
  then have "embed (OpenAIEmbedding ''m'' limited_create) (map str_nat [0..<250])
       = Inr (map (\<lambda>t. [real (length t)]) (map str_nat [0..<250]))"
    by (rule embed_openai_aligned [where n = 1]) simp_all
  moreover have "limited_create ''m'' (map str_nat [0..<250]) = Inl (ProviderFailure ''call size'')"
    by (simp add: limited_create_def)
  ultimately show ?thesis by simp
qed

subsection \<open>ingest_documents: the empty corpus\<close>

text \<open>
  Claim C8: when the source yields no chunk, \<open>ingest_documents\<close> returns (it raises
  nothing) the result with zero documents, zero chunks and the error list
  \<open>["No documents found"]\<close>, and it writes no snapshot.
\<close>

theorem ingest_empty_corpus:
  assumes "fst (collect_chunks env src max_size) = []"
  shows "ingest_documents env src max_size overlap_arg output_path
           = Inr (\<lparr> documents = 0, chunks_created = 0, errors = [''No documents found''] \<rparr>, None)"
  using assms by (cases "collect_chunks env src max_size") (simp add: ingest_documents_def)

theorem ingest_empty_corpus_witness:
  "ingest_documents empty_env ''docs'' 512 50 ''out''
     = Inr (\<lparr> documents = 0, chunks_created = 0, errors = [''No documents found''] \<rparr>, None)"
  using ingest_empty_corpus [of empty_env "''docs''" 512 50 "''out''"]
  by (simp add: collect_chunks_def ingest_directory_def empty_env_def)

subsection \<open>The retriever without an index file\<close>

text \<open>
  Claim C9: when there is no index file under \<open>vector_path\<close>, the constructor succeeds
  and leaves \<open>index\<close> unset, and every later \<open>retrieve\<close> (of the plain and of the hybrid
  retriever) raises \<open>RuntimeError("Index not loaded")\<close>, whatever its arguments.
\<close>

theorem missing_index_not_loaded:
  assumes "index_file dir = None"
  shows "\<exists>r. new_retriever env dir path = Inr r \<and> index r = None
           \<and> (\<forall>query top_k threshold do_rerank.
                 retrieve r query top_k threshold do_rerank = Inl (RuntimeError ''Index not loaded''))
           \<and> (\<forall>query top_k threshold do_rerank w.
                 hybrid_retrieve r query top_k threshold do_rerank w = Inl (RuntimeError ''Index not loaded''))"
  using assms by (simp add: new_retriever_def load_index_def retrieve_def hybrid_retrieve_def)

theorem missing_index_not_loaded_witness:
  "\<exists>r. new_retriever empty_env \<lparr> index_file = None, chunks_file = None \<rparr> ''./data/vectors'' = Inr r
       \<and> index r = None
       \<and> retrieve r ''q'' 5 0 True = Inl (RuntimeError ''Index not loaded'')"
  using missing_index_not_loaded [of "\<lparr> index_file = None, chunks_file = None \<rparr>" empty_env "''./data/vectors''"]
  by auto

subsection \<open>ingest_documents: what chunk_overlap reaches\<close>

text \<open>
  Claim C10: two runs that differ only in \<open>chunk_overlap\<close> return the same result (or
  the same error) and write the same index and the same chunk records; the snapshot
  of the second run is the snapshot of the first with the manifest's \<open>chunk_overlap\<close>
  replaced.  The chunks and the texts handed to the embedder come from
  \<open>collect_chunks\<close>, which does not take the overlap at all.
\<close>

theorem chunk_overlap_frame:
  "ingest_documents env src max_size ov2 output_path
     = map_sum id (map_prod id (map_option (with_overlap ov2)))
         (ingest_documents env src max_size ov1 output_path)"
  by (cases "collect_chunks env src max_size")
    (simp add: ingest_documents_def with_overlap_def split: sum.splits)

subsection \<open>ingest_documents: the snapshot keeps vectors and chunk records aligned\<close>

lemma index_add_xb:
  "index_add \<lparr> d = n, xb = [] \<rparr> rows = Inr ix \<Longrightarrow> xb ix = rows"
  by (auto simp: index_add_def split: if_splits)

lemma one_file_run:
  "ingest_documents one_file_env ''notes.md'' 512 50 ''out'' =
    Inr (\<lparr>documents = 1, chunks_created = 1, errors = []\<rparr>,
      Some
       \<lparr>index_faiss = \<lparr>d = 1, xb = [[120]]\<rparr>,
          chunks_json =
            [\<lparr>rec_id = Some ''0123456789ab_chunk_0'',
                rec_content = Some (replicate 120 (CHR ''a'')),
                rec_metadata =
                  Some
                   [(''source'', MStr ''notes.md''),
                    (''file_type'', MStr ''text''), (''size'', MInt 120),
                    (''ingested_at'', MStr ''t''),
                    (''chunk_index'', MInt 0)]\<rparr>],
          metadata_json =
            \<lparr>ingested_at = ''t'', source = ''notes.md'',
               manifest_chunk_size = 512, chunk_overlap = 50,
               total_chunks = 1,
               manifest_embedding_model = ''text-embedding-3-small'',
               dimensions = 1\<rparr>\<rparr>)"
  by code_simp

text \<open>
  Claim C1: for a run of \<open>ingest_documents\<close> that writes a snapshot (it does so only
  when there is at least one chunk), with an embedder that returns the embeddings
  \<open>map e texts\<close> of its inputs in order: the index holds as many vectors as
  \<open>chunks.json\<close> holds records, that number is the manifest's \<open>total_chunks\<close> (and the
  returned chunk count, and positive), and the vector at every position \<open>i\<close> is the
  embedding, cast to float32, of the content of the chunk record at position \<open>i\<close>.
\<close>

theorem snapshot_aligned:
  assumes run: "ingest_documents env src max_size ov output_path = Inr (res, Some snap)"
    and model: "get_embedding_model (embedding_backends env)
                  (getenv_default env ''EMBEDDING_MODEL_TYPE'' ''openai'')
                  (getenv_default env ''EMBEDDING_MODEL'' ''text-embedding-3-small'') = Inr m"
    and aligned: "\<And>texts vs. embed m texts = Inr vs \<Longrightarrow> vs = map e texts"
  shows "length (xb (index_faiss snap)) = length (chunks_json snap)
       \<and> length (chunks_json snap) = total_chunks (metadata_json snap)
       \<and> 0 < total_chunks (metadata_json snap)
       \<and> chunks_created res = total_chunks (metadata_json snap)
       \<and> (\<forall>i < length (chunks_json snap).
             \<exists>c. rec_content (chunks_json snap ! i) = Some c
                \<and> xb (index_faiss snap) ! i = astype_float32 (e c))"
proof -
  obtain cs tick where cc: "collect_chunks env src max_size = (cs, tick)"
    by (cases "collect_chunks env src max_size")
  from run cc have ne: "cs \<noteq> []"
    by (auto simp: ingest_documents_def)
  from run cc ne model obtain vs dimension ix where
    emb: "embed m (map content cs) = Inr vs"
    and add: "index_add \<lparr> d = dimension, xb = [] \<rparr> (map astype_float32 vs) = Inr ix"
    and snap: "snap = \<lparr> index_faiss = ix, chunks_json = chunk_data cs,
                 metadata_json = \<lparr> ingested_at = utcnow_iso env tick, source = src,
                   manifest_chunk_size = max_size, chunk_overlap = ov,
                   total_chunks = length cs,
                   manifest_embedding_model = getenv_default env ''EMBEDDING_MODEL'' ''text-embedding-3-small'',
                   dimensions = dimension \<rparr> \<rparr>"
    and res: "chunks_created res = length cs"
    by (auto simp: ingest_documents_def split: sum.splits)
  from aligned [OF emb] have vs: "vs = map e (map content cs)" .
  from index_add_xb [OF add] vs have xb: "xb ix = map (\<lambda>c. astype_float32 (e (content c))) cs"
    by (simp add: comp_def)
  show ?thesis
    using ne by (simp add: snap xb res chunk_data_def)
qed

theorem snapshot_aligned_witness:
  "\<exists>res snap. ingest_documents one_file_env ''notes.md'' 512 50 ''out'' = Inr (res, Some snap)
     \<and> length (xb (index_faiss snap)) = length (chunks_json snap)
     \<and> length (chunks_json snap) = total_chunks (metadata_json snap)
     \<and> 0 < total_chunks (metadata_json snap)
     \<and> chunks_created res = total_chunks (metadata_json snap)
     \<and> (\<forall>i < length (chunks_json snap).
           \<exists>c. rec_content (chunks_json snap ! i) = Some c
              \<and> xb (index_faiss snap) ! i = astype_float32 [real (length c)])"
proof -
  let ?create = "\<lambda>(m::string) batch. Inr (map (\<lambda>t. [real (length t)]) batch) :: error + vec list"
  have model: "get_embedding_model (embedding_backends one_file_env)
                  (getenv_default one_file_env ''EMBEDDING_MODEL_TYPE'' ''openai'')
                  (getenv_default one_file_env ''EMBEDDING_MODEL'' ''text-embedding-3-small'')
                = Inr (OpenAIEmbedding ''text-embedding-3-small'' ?create)"
    by (simp add: get_embedding_model_def getenv_default_def one_file_env_def empty_env_def)
  have aligned: "vs = map (\<lambda>t. [real (length t)]) texts"
    if "embed (OpenAIEmbedding ''text-embedding-3-small'' ?create) texts = Inr vs" for texts vs
    using that embed_openai_map [where create = ?create and model = "''text-embedding-3-small''"
        and e = "\<lambda>t. [real (length t)]" and n = 1 and texts = texts]
    by simp
  from snapshot_aligned [OF one_file_run model aligned] one_file_run
  show ?thesis by blast
qed

subsection \<open>SemanticChunker: a short last buffer is dropped\<close>

text \<open>
  Claim C3 says that a non-empty final buffer always becomes the last chunk.  The
  source reaches the last chunk under the comment \<open>Don't forget the last chunk\<close>, but
  it appends it only if \<open>len(current_chunk) >= self.min_chunk_size\<close>.  With the chunker
  that \<open>ingest_documents\<close> builds (minimum 100) and the text \<open>hello\<close>: after the loop the
  buffer holds a newline and the text, stripped it is \<open>hello\<close>, and no chunk is
  returned.
\<close>

theorem semantic_chunk_drops_short_text:
  "current_chunk (sem_loop (get_chunker_semantic 512) ''hello'' ''d'' []) = CHR 0x0A # ''hello''
   \<and> strip (current_chunk (sem_loop (get_chunker_semantic 512) ''hello'' ''d'' [])) = ''hello''
   \<and> semantic_chunk (get_chunker_semantic 512) ''hello'' ''d'' [] = []"
  by code_simp

text \<open>The file with that text is then not a document at all for the pipeline.\<close>

lemma short_file_not_found:
  "ingest_documents short_file_env ''notes.md'' 512 50 ''out''
     = Inr (\<lparr> documents = 0, chunks_created = 0, errors = [''No documents found''] \<rparr>, None)"
  by code_simp

subsection \<open>The rows that a search reports\<close>

lemma l2_sqr_nonneg:
  assumes "l2_sqr x y = Some distance"
  shows "0 \<le> distance"
proof -
  have "0 \<le> (\<Sum>(a, b) \<leftarrow> zip x y. (a - b)\<^sup>2)"
    by (rule sum_list_nonneg) auto
  with assms show ?thesis
    by (auto simp: l2_sqr_def Let_def split: if_splits)
qed

lemma row_entry_facts:
  assumes "p \<in> set (row_entry q (i, v))"
  shows "snd p = int i \<and> 0 \<le> fst p \<and> fst p < float32_max \<and> l2_sqr q v = Some (fst p)"
proof (cases "l2_sqr q v")
  case None
  with assms show ?thesis by (simp add: row_entry_def)
next
  case (Some distance)
  with assms have "p = (distance, int i)" "distance < float32_max"
    by (auto simp: row_entry_def split: if_splits)
  with Some l2_sqr_nonneg [OF Some] show ?thesis by simp
qed

lemma row_entry_short: "length (row_entry q p) \<le> 1"
  by (cases p) (simp add: row_entry_def split: option.splits)


lemma scored_rows_enum:
  "distinct (map snd (concat (map (row_entry q) (enumerate n rows))))
   \<and> (\<forall>p \<in> set (concat (map (row_entry q) (enumerate n rows))).
         int n \<le> snd p \<and> snd p < int (n + length rows) \<and> 0 \<le> fst p
         \<and> (\<exists>v \<in> set rows. l2_sqr q v = Some (fst p)))"
proof (induction rows arbitrary: n)
  case Nil
  then show ?case by simp
next
  case (Cons v rows)
  have head: "distinct (map snd (row_entry q (n, v)))"
    using row_entry_short [of q "(n, v)"]
    by (cases "row_entry q (n, v)") auto
  from Cons [of "Suc n"] row_entry_facts [of _ q n v] head
  show ?case by (fastforce simp: Ball_def)
qed

lemma scored_rows_distinct: "distinct (map snd (scored_rows ix q))"
  using scored_rows_enum [of q 0 "xb ix"] unfolding scored_rows_def by simp

lemma scored_rows_in_range:
  assumes "h \<in> set (scored_rows ix q)"
  shows "0 \<le> fst h \<and> 0 \<le> snd h \<and> snd h < int (length (xb ix))"
  using assms scored_rows_enum [of q 0 "xb ix"] unfolding scored_rows_def by auto






lemma index_search_form:
  assumes "index_search ix q k = Inr hits"
  shows "0 < k \<and> (\<exists>pad. hits = take (nat k) (sort_key fst (scored_rows ix q))
            @ replicate pad (float32_max, - 1))"
  using assms by (auto simp: index_search_def Let_def split: if_splits)


subsection \<open>RAGRetriever.retrieve: the threshold\<close>

lemma slice_to_nonneg: "0 \<le> k \<Longrightarrow> slice_to xs k = take (nat k) xs"
  by (simp add: slice_to_def slice_bound_def min_def)

lemma to_results_append:
  "to_results cs t (xs @ ys) = to_results cs t xs @ to_results cs t ys"
  by (induction cs t xs rule: to_results.induct) (simp_all add: Let_def)

lemma to_results_threshold: "r \<in> set (to_results cs t hs) \<Longrightarrow> t \<le> score r"
  by (induction cs t hs rule: to_results.induct)
     (auto simp: Let_def result_of_def split: if_splits)

lemma to_results_antimono:
  "t1 \<le> t2 \<Longrightarrow> length (to_results cs t2 hs) \<le> length (to_results cs t1 hs)"
proof (induction hs)
  case Nil
  then show ?case by simp
next
  case (Cons h hs)
  obtain dd i where h: "h = (dd, i)" by (cases h)
  from Cons show ?case
    unfolding h by (auto simp: Let_def)
qed

text \<open>Without reranking, the threshold reaches nothing but the conversion loop.\<close>

lemma retrieve_plain_form:
  "(\<exists>e. \<forall>t. retrieve self q k t False = Inl e)
   \<or> (0 < k \<and> (\<exists>hits. \<forall>t. retrieve self q k t False
                      = Inr (take (nat k) (to_results (chunks self) t hits))))"
proof (cases "index self")
  case None
  then show ?thesis by (simp add: retrieve_def)
next
  case (Some ix)
  note ix = this
  show ?thesis
  proof (cases "embedding_model self")
    case None
    with ix show ?thesis by (simp add: retrieve_def)
  next
    case (Some m)
    note m = this
    show ?thesis
    proof (cases "embed m [q]")
      case (Inl e)
      with ix m show ?thesis by (simp add: retrieve_def)
    next
      case (Inr vs)
      note vs = this
      show ?thesis
      proof (cases vs)
        case Nil
        with ix m vs show ?thesis by (simp add: retrieve_def)
      next
        case (Cons qe rest)
        note qe = this
        show ?thesis
        proof (cases "index_search ix (astype_float32 qe) k")
          case (Inl e)
          with ix m vs qe show ?thesis by (simp add: retrieve_def)
        next
          case (Inr hits)
          then have "0 < k" by (auto simp: index_search_def split: if_splits)
          with ix m vs qe Inr show ?thesis
            by (auto simp add: retrieve_def slice_to_nonneg)
        qed
      qed
    qed
  qed
qed

lemma demo_run_plain:
  "retrieve demo_retriever ''alpha'' 5 0 False =
     Inr [\<lparr>result_id = ''c1'', result_content = ''alpha gamma'', score = 1, result_metadata = []\<rparr>,
          \<lparr>result_id = ''c0'', result_content = ''alpha beta'', score = 1 / 26, result_metadata = []\<rparr>]"
  by code_simp


text \<open>
  Claim C5: for a fixed retriever, query and \<open>top_k\<close>, with \<open>rerank=false\<close> and thresholds
  \<open>t1 \<le> t2\<close>: either both calls raise the same error, or both return, the call with \<open>t2\<close>
  returns at most as many results as the call with \<open>t1\<close>, and every result it returns
  has a similarity of at least \<open>t2\<close>.
\<close>

theorem threshold_monotone:
  assumes "t1 \<le> t2"
  shows "(\<exists>e. retrieve self q k t1 False = Inl e \<and> retrieve self q k t2 False = Inl e)
       \<or> (\<exists>r1 r2. retrieve self q k t1 False = Inr r1 \<and> retrieve self q k t2 False = Inr r2
             \<and> length r2 \<le> length r1 \<and> (\<forall>r \<in> set r2. t2 \<le> score r))"
proof -
  from retrieve_plain_form [of self q k] show ?thesis
  proof
    assume "\<exists>e. \<forall>t. retrieve self q k t False = Inl e"
    then show ?thesis by auto
  next
    assume "0 < k \<and> (\<exists>hits. \<forall>t. retrieve self q k t False
                      = Inr (take (nat k) (to_results (chunks self) t hits)))"
    then obtain hits where
      form: "\<And>t. retrieve self q k t False = Inr (take (nat k) (to_results (chunks self) t hits))"
      by blast
    have "length (take (nat k) (to_results (chunks self) t2 hits))
            \<le> length (take (nat k) (to_results (chunks self) t1 hits))"
      using to_results_antimono [OF assms, of "chunks self" hits] by simp
    moreover have "\<forall>r \<in> set (take (nat k) (to_results (chunks self) t2 hits)). t2 \<le> score r"
      by (meson in_set_takeD to_results_threshold)
    ultimately show ?thesis
      by (simp add: form)
  qed
qed

theorem threshold_monotone_witness:
  "(0::real) \<le> 1 / 2
   \<and> (\<exists>r1 r2. retrieve demo_retriever ''alpha'' 5 0 False = Inr r1
          \<and> retrieve demo_retriever ''alpha'' 5 (1 / 2) False = Inr r2
          \<and> length r2 \<le> length r1 \<and> (\<forall>r \<in> set r2. 1 / 2 \<le> score r))"
  using threshold_monotone [of 0 "1 / 2" demo_retriever "''alpha''" 5]
  by (simp add: demo_run_plain)

subsection \<open>RAGRetriever.retrieve: at most top_k results\<close>


lemma retrieve_positive_k:
  assumes "retrieve self q k t rr = Inr rs"
  shows "0 < k"
  using assms
  by (auto simp: retrieve_def Let_def index_search_def
           split: option.splits sum.splits list.splits if_splits)


lemma to_results_padding: "to_results cs t (replicate n (x, - 1)) = []"
  by (induction n) simp_all





subsection \<open>HybridRetriever.retrieve at the two ends of semantic_weight\<close>

subsubsection \<open>Association lists\<close>

lemma update_fresh: "k \<notin> fst ` set al \<Longrightarrow> AList.update k v al = al @ [(k, v)]"
  by (induction al) auto

lemma merge_semantic_fresh:
  assumes "distinct (map result_id rs)" and "result_id ` set rs \<inter> fst ` set m = {}"
  shows "merge_semantic w rs m = m @ map (\<lambda>r. (result_id r, r\<lparr> score := score r * w \<rparr>)) rs"
  using assms
proof (induction rs arbitrary: m)
  case Nil
  then show ?case by simp
next
  case (Cons r rs)
  from Cons.prems have fresh: "result_id r \<notin> fst ` set m" by auto
  have step: "AList.update (result_id r) (r\<lparr> score := score r * w \<rparr>) m
                = m @ [(result_id r, r\<lparr> score := score r * w \<rparr>)]"
    using fresh by (rule update_fresh)
  have "merge_semantic w rs (m @ [(result_id r, r\<lparr> score := score r * w \<rparr>)])
          = (m @ [(result_id r, r\<lparr> score := score r * w \<rparr>)])
              @ map (\<lambda>r. (result_id r, r\<lparr> score := score r * w \<rparr>)) rs"
    using Cons.prems by (intro Cons.IH) auto
  then show ?case by (simp add: step)
qed

subsubsection \<open>What the plain retrieval returns\<close>

lemma retrieve_plain_nearest:
  assumes "retrieve self q k t False = Inr rs"
  shows "\<exists>ix qe. index self = Some ix \<and> 0 < k
           \<and> rs = take (nat k) (to_results (chunks self) t
                      (take (nat k) (sort_key fst (scored_rows ix qe))))"
proof -
  from assms obtain ix m qe rest hits where
    ix: "index self = Some ix" and "embedding_model self = Some m"
    and "embed m [q] = Inr (qe # rest)"
    and search: "index_search ix (astype_float32 qe) k = Inr hits"
    and rs: "rs = slice_to (to_results (chunks self) t hits) k"
    by (auto simp: retrieve_def Let_def split: option.splits sum.splits list.splits)
  from index_search_form [OF search] obtain pad where k: "0 < k"
    and hits: "hits = take (nat k) (sort_key fst (scored_rows ix (astype_float32 qe)))
            @ replicate pad (float32_max, - 1)"
    by blast
  from rs k have "rs = take (nat k) (to_results (chunks self) t
                      (take (nat k) (sort_key fst (scored_rows ix (astype_float32 qe)))))"
    by (simp add: hits to_results_append to_results_padding slice_to_nonneg)
  with ix k show ?thesis by blast
qed

lemma to_results_origin:
  assumes "r \<in> set (to_results cs t hs)"
  shows "\<exists>dd i. (dd, i) \<in> set hs \<and> 0 \<le> i \<and> i < int (length cs)
           \<and> r = result_of (cs ! nat i) (nat i) (1 / (1 + dd))"
  using assms
proof (induction hs)
  case Nil
  then show ?case by simp
next
  case (Cons h hs)
  obtain dd i where h: "h = (dd, i)" by (cases h)
  show ?case
  proof (cases "r \<in> set (to_results cs t hs)")
    case True
    from Cons.IH [OF this] show ?thesis by auto
  next
    case False
    with Cons.prems have "0 \<le> i \<and> i < int (length cs)
        \<and> r = result_of (cs ! nat i) (nat i) (1 / (1 + dd))"
      by (auto simp: h Let_def split: if_splits)
    then show ?thesis unfolding h by auto
  qed
qed

lemma score_result_of [simp]: "score (result_of c i s) = s"
  by (simp add: result_of_def)

lemma similarity_antimono:
  fixes a b :: real
  assumes "0 \<le> a" "a \<le> b"
  shows "1 / (1 + b) \<le> 1 / (1 + a)"
  using assms by (simp add: frac_le)

lemma to_results_sorted:
  assumes "sorted (map fst hs)" and "\<forall>h \<in> set hs. 0 \<le> fst h"
  shows "sorted (map (\<lambda>r. - score r) (to_results cs t hs))"
  using assms
proof (induction hs)
  case Nil
  then show ?case by simp
next
  case (Cons h hs)
  obtain dd i where h: "h = (dd, i)" by (cases h)
  from Cons.prems have IH: "sorted (map (\<lambda>r. - score r) (to_results cs t hs))"
    by (intro Cons.IH) auto
  have later: "score r \<le> 1 / (1 + dd)" if "r \<in> set (to_results cs t hs)" for r
  proof -
    from to_results_origin [OF that] obtain dd' i' where
      mem: "(dd', i') \<in> set hs" and r: "r = result_of (cs ! nat i') (nat i') (1 / (1 + dd'))"
      by blast
    from Cons.prems mem have "0 \<le> dd" "dd \<le> dd'" by (auto simp: h)
    then show ?thesis by (simp add: r similarity_antimono)
  qed
  show ?case
    using IH later by (auto simp: h Let_def)
qed

lemma to_results_positive:
  assumes "\<forall>h \<in> set hs. 0 \<le> fst h" and "r \<in> set (to_results cs t hs)"
  shows "0 < score r"
proof -
  from to_results_origin [OF assms(2)] obtain dd i where
    "(dd, i) \<in> set hs" and r: "r = result_of (cs ! nat i) (nat i) (1 / (1 + dd))"
    by blast
  with assms(1) have "0 \<le> dd" by auto
  then show ?thesis by (simp add: r)
qed

lemma scored_rows_nonneg: "\<forall>h \<in> set (scored_rows ix q). 0 \<le> fst h"
  using scored_rows_in_range by blast

lemma nearest_sorted:
  "sorted (map fst (take n (sort_key fst (scored_rows ix q))))"
  by (simp add: take_map [symmetric] sorted_wrt_take del: take_map)

lemma nearest_nonneg: "\<forall>h \<in> set (take n (sort_key fst (scored_rows ix q))). 0 \<le> fst h"
proof
  fix h
  assume "h \<in> set (take n (sort_key fst (scored_rows ix q)))"
  then have "h \<in> set (sort_key fst (scored_rows ix q))" by (rule in_set_takeD)
  then have "h \<in> set (scored_rows ix q)" by simp
  with scored_rows_nonneg show "0 \<le> fst h" by blast
qed

lemma sorted_take_desc:
  "sorted (map f xs) \<Longrightarrow> sorted (map f (take n xs))"
  by (simp add: take_map [symmetric] sorted_wrt_take del: take_map)

lemma retrieve_plain_sorted:
  assumes "retrieve self q k t False = Inr rs"
  shows "sorted (map (\<lambda>r. - score r) rs) \<and> (\<forall>r \<in> set rs. 0 < score r)"
proof -
  from retrieve_plain_nearest [OF assms] obtain ix qe where
    rs: "rs = take (nat k) (to_results (chunks self) t
                      (take (nat k) (sort_key fst (scored_rows ix qe))))"
    by blast
  let ?hs = "take (nat k) (sort_key fst (scored_rows ix qe))"
  have "sorted (map (\<lambda>r. - score r) (to_results (chunks self) t ?hs))"
    by (rule to_results_sorted [OF nearest_sorted nearest_nonneg])
  then have "sorted (map (\<lambda>r. - score r) rs)"
    unfolding rs by (rule sorted_take_desc)
  moreover have "\<forall>r \<in> set rs. 0 < score r"
    unfolding rs using to_results_positive [OF nearest_nonneg] by (auto dest: in_set_takeD)
  ultimately show ?thesis by simp
qed

lemma chunk_ids_nth:
  "j < length cs \<Longrightarrow> result_id (result_of (cs ! j) j s) = chunk_ids cs ! j"
  by (simp add: chunk_ids_def nth_enumerate_eq result_of_def)

lemma length_chunk_ids [simp]: "length (chunk_ids cs) = length cs"
  by (simp add: chunk_ids_def)

lemma to_results_ids_distinct:
  assumes "distinct (chunk_ids cs)" and "distinct (map snd hs)"
  shows "distinct (map result_id (to_results cs t hs))"
  using assms(2)
proof (induction hs)
  case Nil
  then show ?case by simp
next
  case (Cons h hs)
  obtain dd i where h: "h = (dd, i)" by (cases h)
  from Cons have IH: "distinct (map result_id (to_results cs t hs))" by simp
  have fresh: "result_id (result_of (cs ! nat i) (nat i) s) \<notin> result_id ` set (to_results cs t hs)"
    if range: "0 \<le> i" "i < int (length cs)" for s
  proof
    assume "result_id (result_of (cs ! nat i) (nat i) s) \<in> result_id ` set (to_results cs t hs)"
    then obtain r where r: "r \<in> set (to_results cs t hs)"
      and same: "result_id r = result_id (result_of (cs ! nat i) (nat i) s)" by auto
    from to_results_origin [OF r] obtain dd' i' where
      mem: "(dd', i') \<in> set hs" and range': "0 \<le> i'" "i' < int (length cs)"
      and r': "r = result_of (cs ! nat i') (nat i') (1 / (1 + dd'))"
      by blast
    from range range' have lt: "nat i < length cs" "nat i' < length cs" by linarith+
    from same have "chunk_ids cs ! nat i' = chunk_ids cs ! nat i"
      by (simp add: r' chunk_ids_nth lt)
    with assms(1) lt have "nat i' = nat i"
      by (simp add: nth_eq_iff_index_eq)
    with range range' have "i' = i" by linarith
    with mem have "i \<in> snd ` set hs" by force
    with Cons.prems show False by (simp add: h)
  qed
  show ?case
    using IH fresh by (auto simp: h Let_def)
qed

lemma nearest_rows_distinct:
  "distinct (map snd (take n (sort_key fst (scored_rows ix q))))"
proof -
  have "distinct (map snd (scored_rows ix q))"
    by (rule scored_rows_distinct)
  then have "distinct (scored_rows ix q)" "inj_on snd (set (scored_rows ix q))"
    by (simp_all add: distinct_map)
  then have "distinct (map snd (sort_key fst (scored_rows ix q)))"
    by (simp add: distinct_map)
  then show ?thesis
    by (simp add: take_map [symmetric] del: take_map)
qed

lemma retrieve_plain_ids_distinct:
  assumes "retrieve self q k t False = Inr rs" and "distinct (chunk_ids (chunks self))"
  shows "distinct (map result_id rs)"
proof -
  from retrieve_plain_nearest [OF assms(1)] obtain ix qe where
    rs: "rs = take (nat k) (to_results (chunks self) t
                      (take (nat k) (sort_key fst (scored_rows ix qe))))"
    by blast
  have "distinct (map result_id (to_results (chunks self) t
                      (take (nat k) (sort_key fst (scored_rows ix qe)))))"
    by (rule to_results_ids_distinct [OF assms(2) nearest_rows_distinct])
  then show ?thesis
    unfolding rs by (simp add: take_map [symmetric] del: take_map)
qed

subsubsection \<open>The fusion with semantic_weight = 1\<close>

lemma merge_keyword_one:
  "\<exists>e. merge_keyword 1 kw m = m @ e \<and> (\<forall>p \<in> set e. score (snd p) = 0)"
proof (induction kw arbitrary: m)
  case Nil
  then show ?case by simp
next
  case (Cons r kw)
  show ?case
  proof (cases "map_of m (result_id r)")
    case None
    then have "result_id r \<notin> fst ` set m" by (simp add: map_of_eq_None_iff)
    then have step: "AList.update (result_id r) (r\<lparr> score := score r * (1 - 1) \<rparr>) m
                = m @ [(result_id r, r\<lparr> score := score r * (1 - 1) \<rparr>)]"
      by (rule update_fresh)
    from Cons.IH [of "m @ [(result_id r, r\<lparr> score := score r * (1 - 1) \<rparr>)]"]
    obtain e where "merge_keyword 1 kw (m @ [(result_id r, r\<lparr> score := score r * (1 - 1) \<rparr>)])
        = (m @ [(result_id r, r\<lparr> score := score r * (1 - 1) \<rparr>)]) @ e"
      and "\<forall>p \<in> set e. score (snd p) = 0" by blast
    then have "merge_keyword 1 (r # kw) m = m @ ((result_id r, r\<lparr> score := score r * (1 - 1) \<rparr>) # e)
        \<and> (\<forall>p \<in> set ((result_id r, r\<lparr> score := score r * (1 - 1) \<rparr>) # e). score (snd p) = 0)"
      using None step by simp
    then show ?thesis by blast
  next
    case (Some old)
    then have "AList.update (result_id r) (old\<lparr> score := score old + score r * (1 - 1) \<rparr>) m = m"
      by (simp add: update_triv)
    with Some Cons.IH [of m] show ?thesis by simp
  qed
qed

lemma sorted_desc_append_zeros:
  assumes "sorted (map (\<lambda>r. - score r) xs)" and "\<forall>x \<in> set xs. 0 < score x"
    and "\<forall>z \<in> set zs. score z = (0::real)"
  shows "sort_desc score (xs @ zs) = xs @ zs"
proof -
  have "sorted (map (\<lambda>r. - score r) zs)"
    using assms(3) by (simp add: sorted_wrt_iff_nth_less sorted_iff_nth_mono)
  with assms have "sorted (map (\<lambda>r. - score r) (xs @ zs))"
    by (auto simp: sorted_append less_imp_le)
  then show ?thesis
    unfolding sort_desc_def by (rule sort_key_id_if_sorted)
qed

lemma hybrid_one_form:
  assumes sem: "retrieve self q (k * 2) t False = Inr sem"
    and ids: "distinct (map result_id sem)"
  shows "\<exists>zeros. (\<forall>z \<in> set zeros. score z = 0)
           \<and> hybrid_retrieve self q k t rr 1 = Inr (take (nat k) (sem @ zeros))"
proof -
  from retrieve_positive_k [OF sem] have k: "0 < k" by simp
  have m1: "merge_semantic 1 sem [] = map (\<lambda>r. (result_id r, r)) sem"
    using merge_semantic_fresh [OF ids, of "[]" 1] by simp
  from merge_keyword_one [of "keyword_search self q (k * 2)" "map (\<lambda>r. (result_id r, r)) sem"]
  obtain e where e: "merge_keyword 1 (keyword_search self q (k * 2)) (map (\<lambda>r. (result_id r, r)) sem)
        = map (\<lambda>r. (result_id r, r)) sem @ e"
    and zero: "\<forall>p \<in> set e. score (snd p) = 0" by blast
  from retrieve_plain_sorted [OF sem] zero
  have "sort_desc score (sem @ map snd e) = sem @ map snd e"
    by (intro sorted_desc_append_zeros) auto
  with k have "hybrid_retrieve self q k t rr 1 = Inr (take (nat k) (sem @ map snd e))"
    by (simp add: hybrid_retrieve_def sem m1 e comp_def slice_to_nonneg)
  with zero show ?thesis by (intro exI [of _ "map snd e"]) auto
qed

subsubsection \<open>Searching for more candidates and cutting gives the same head\<close>

lemma retrieve_plain_parts:
  assumes "retrieve self q k t False = Inr rs"
  shows "\<exists>ix m qe rest. index self = Some ix \<and> embedding_model self = Some m
           \<and> embed m [q] = Inr (qe # rest) \<and> length (astype_float32 qe) = d ix"
  using assms
  by (auto simp: retrieve_def Let_def index_search_def
           split: option.splits sum.splits list.splits if_splits)

lemma retrieve_plain_eq:
  assumes "index self = Some ix" and "embedding_model self = Some m"
    and "embed m [q] = Inr (qe # rest)" and "length (astype_float32 qe) = d ix" and "0 < k"
  shows "retrieve self q k t False
           = Inr (take (nat k) (to_results (chunks self) t
                    (take (nat k) (sort_key fst (scored_rows ix (astype_float32 qe))))))"
  using assms
  by (simp add: retrieve_def index_search_def Let_def to_results_append
        to_results_padding slice_to_nonneg)

lemma takeWhile_take_commute: "takeWhile P (take n xs) = take n (takeWhile P xs)"
proof (induction xs arbitrary: n)
  case Nil
  then show ?case by simp
next
  case (Cons x xs)
  then show ?case by (cases n) simp_all
qed

lemma to_results_none:
  assumes "\<forall>h \<in> set hs. \<not> t \<le> 1 / (1 + fst h)"
  shows "to_results cs t hs = []"
  using assms
proof (induction hs)
  case Nil
  then show ?case by simp
next
  case (Cons h hs)
  obtain dd i where h: "h = (dd, i)" by (cases h)
  from Cons show ?case by (simp add: h Let_def)
qed

lemma to_results_takeWhile:
  assumes "sorted (map fst hs)"
    and "\<forall>h \<in> set hs. 0 \<le> fst h \<and> 0 \<le> snd h \<and> snd h < int (length cs)"
  shows "to_results cs t hs
           = map (\<lambda>(dd, i). result_of (cs ! nat i) (nat i) (1 / (1 + dd)))
               (takeWhile (\<lambda>(dd, i). t \<le> 1 / (1 + dd)) hs)"
  using assms
proof (induction hs)
  case Nil
  then show ?case by simp
next
  case (Cons h hs)
  obtain dd i where h: "h = (dd, i)" by (cases h)
  from Cons.prems have range: "0 \<le> dd" "0 \<le> i" "i < int (length cs)"
    by (simp_all add: h)
  show ?case
  proof (cases "t \<le> 1 / (1 + dd)")
    case True
    moreover from Cons.prems have "to_results cs t hs
           = map (\<lambda>(dd, i). result_of (cs ! nat i) (nat i) (1 / (1 + dd)))
               (takeWhile (\<lambda>(dd, i). t \<le> 1 / (1 + dd)) hs)"
      by (intro Cons.IH) auto
    ultimately show ?thesis using range by (simp add: h Let_def)
  next
    case False
    have "\<forall>h' \<in> set hs. \<not> t \<le> 1 / (1 + fst h')"
    proof
      fix h'
      assume mem: "h' \<in> set hs"
      with Cons.prems have "dd \<le> fst h'" by (auto simp: h)
      from similarity_antimono [OF range(1) this] False
      show "\<not> t \<le> 1 / (1 + fst h')" by linarith
    qed
    then have "to_results cs t hs = []" by (rule to_results_none)
    with False range show ?thesis by (simp add: h Let_def)
  qed
qed

lemma retrieve_plain_prefix:
  assumes sem: "retrieve self q (k * 2) t False = Inr sem"
    and ix: "index self = Some ix" and aligned: "length (xb ix) \<le> length (chunks self)"
  shows "retrieve self q k t False = Inr (take (nat k) sem)"
proof -
  from retrieve_positive_k [OF sem] have k: "0 < k" "0 < k * 2" by simp_all
  from retrieve_plain_parts [OF sem] ix obtain m qe rest where
    parts: "embedding_model self = Some m" "embed m [q] = Inr (qe # rest)"
      "length (astype_float32 qe) = d ix"
    by auto
  let ?rows = "sort_key fst (scored_rows ix (astype_float32 qe))"
  let ?g = "\<lambda>(dd, i). result_of (chunks self ! nat i) (nat i) (1 / (1 + dd))"
  let ?P = "\<lambda>(dd::real, i::int). t \<le> 1 / (1 + dd)"
  have conv: "to_results (chunks self) t (take n ?rows) = map ?g (take n (takeWhile ?P ?rows))" for n
  proof -
    have "\<forall>h \<in> set (take n ?rows). 0 \<le> fst h \<and> 0 \<le> snd h \<and> snd h < int (length (chunks self))"
    proof
      fix h
      assume "h \<in> set (take n ?rows)"
      then have "h \<in> set (scored_rows ix (astype_float32 qe))"
        by (auto dest: in_set_takeD)
      from scored_rows_in_range [OF this] aligned
      show "0 \<le> fst h \<and> 0 \<le> snd h \<and> snd h < int (length (chunks self))" by linarith
    qed
    from to_results_takeWhile [OF nearest_sorted this]
    show ?thesis by (simp add: takeWhile_take_commute)
  qed
  have eq2: "retrieve self q (k * 2) t False
      = Inr (take (nat (k * 2)) (map ?g (take (nat (k * 2)) (takeWhile ?P ?rows))))"
    using retrieve_plain_eq [OF ix parts k(2), of t] by (simp only: conv)
  have "sem = take (nat (k * 2)) (map ?g (take (nat (k * 2)) (takeWhile ?P ?rows)))"
    using eq2 [unfolded sem] by (simp only: sum.inject)
  then have "take (nat k) sem = map ?g (take (nat k) (takeWhile ?P ?rows))"
    using k by (simp add: take_map min_def)
  moreover have "retrieve self q k t False = Inr (map ?g (take (nat k) (takeWhile ?P ?rows)))"
    using retrieve_plain_eq [OF ix parts k(1), of t] by (simp add: conv take_map)
  ultimately show ?thesis by simp
qed

subsubsection \<open>What the keyword search returns\<close>

lemma keyword_entry_facts:
  assumes "p \<in> set (keyword_entry qw (i, c))"
  shows "fst p = i \<and> 0 < snd p"
proof -
  let ?m = "common_words qw (split_ws (lower (case rec_content c of Some s \<Rightarrow> s | None \<Rightarrow> [])))"
  from assms have m: "0 < ?m" and p: "p = (i, real ?m / real (length (remdups qw)))"
    by (auto simp: keyword_entry_def Let_def split: if_splits)
  from m have "remdups qw \<noteq> []" by (auto simp: common_words_def)
  with m p show ?thesis by simp
qed

lemma keyword_entry_short: "length (keyword_entry qw p) \<le> 1"
  by (cases p) (simp add: keyword_entry_def Let_def)

lemma keyword_scores_enum:
  "distinct (map fst (concat (map (keyword_entry qw) (enumerate n cs))))
   \<and> (\<forall>p \<in> set (concat (map (keyword_entry qw) (enumerate n cs))).
         n \<le> fst p \<and> fst p < n + length cs \<and> 0 < snd p)"
proof (induction cs arbitrary: n)
  case Nil
  then show ?case by simp
next
  case (Cons c cs)
  have head: "distinct (map fst (keyword_entry qw (n, c)))"
    using keyword_entry_short [of qw "(n, c)"]
    by (cases "keyword_entry qw (n, c)") auto
  from Cons [of "Suc n"] keyword_entry_facts [of _ qw n c] head
  show ?case by (fastforce simp: Ball_def)
qed

lemma keyword_scores_facts:
  "distinct (map fst (keyword_scores qw cs))"
  "p \<in> set (keyword_scores qw cs) \<Longrightarrow> fst p < length cs \<and> 0 < snd p"
  using keyword_scores_enum [of qw 0 cs] unfolding keyword_scores_def by auto

lemma keyword_search_form:
  assumes "0 \<le> n"
  shows "keyword_search self q n
           = map (\<lambda>(idx, sc). result_of (chunks self ! idx) idx sc)
               (take (nat n) (sort_desc snd (keyword_scores (split_ws (lower q)) (chunks self))))"
  using assms by (simp add: keyword_search_def Let_def slice_to_nonneg)

lemma keyword_search_prefix:
  assumes "0 < k"
  shows "keyword_search self q k = take (nat k) (keyword_search self q (k * 2))"
  using assms by (simp add: keyword_search_form take_map min_def)

lemma keyword_search_origin:
  assumes "0 \<le> n" and "r \<in> set (keyword_search self q n)"
  shows "\<exists>i s. i < length (chunks self) \<and> 0 < s \<and> r = result_of (chunks self ! i) i s"
proof -
  from assms obtain p where
    p: "p \<in> set (take (nat n) (sort_desc snd (keyword_scores (split_ws (lower q)) (chunks self))))"
    and r: "r = result_of (chunks self ! fst p) (fst p) (snd p)"
    by (auto simp: keyword_search_form)
  from p have "p \<in> set (keyword_scores (split_ws (lower q)) (chunks self))"
    by (auto dest: in_set_takeD simp: sort_desc_def)
  from keyword_scores_facts(2) [OF this] r show ?thesis by blast
qed

lemma keyword_search_sorted:
  assumes "0 \<le> n"
  shows "sorted (map (\<lambda>r. - score r) (keyword_search self q n))"
proof -
  let ?ks = "keyword_scores (split_ws (lower q)) (chunks self)"
  have "map (\<lambda>r. - score r) (keyword_search self q n)
          = take (nat n) (map (\<lambda>p. - snd p) (sort_key (\<lambda>p. - snd p) ?ks))"
    using assms by (simp add: keyword_search_form sort_desc_def take_map comp_def case_prod_beta)
  then show ?thesis by (simp add: sorted_wrt_take)
qed

lemma keyword_search_ids_distinct:
  assumes "0 \<le> n" and ids: "distinct (chunk_ids (chunks self))"
  shows "distinct (map result_id (keyword_search self q n))"
proof -
  let ?ks = "keyword_scores (split_ws (lower q)) (chunks self)"
  let ?top = "take (nat n) (sort_desc snd ?ks)"
  have mem: "fst p < length (chunks self)" if "p \<in> set ?top" for p
  proof -
    from that have "p \<in> set ?ks" by (auto dest: in_set_takeD simp: sort_desc_def)
    from keyword_scores_facts(2) [OF this] show ?thesis by simp
  qed
  have "distinct (map fst (sort_desc snd ?ks))"
    using keyword_scores_facts(1) [of "split_ws (lower q)" "chunks self"]
    by (simp add: distinct_map sort_desc_def)
  then have d: "distinct (map fst ?top)"
    by (simp add: take_map [symmetric] del: take_map)
  have "map result_id (keyword_search self q n) = map (\<lambda>p. chunk_ids (chunks self) ! fst p) ?top"
    using assms(1) mem by (simp add: keyword_search_form case_prod_beta chunk_ids_nth)
  also have "\<dots> = map ((!) (chunk_ids (chunks self))) (map fst ?top)" by simp
  finally have eq: "map result_id (keyword_search self q n)
      = map ((!) (chunk_ids (chunks self))) (map fst ?top)" .
  have "inj_on ((!) (chunk_ids (chunks self))) (set (map fst ?top))"
    using ids mem by (auto simp: inj_on_def nth_eq_iff_index_eq)
  with d have "distinct (map ((!) (chunk_ids (chunks self))) (map fst ?top))"
    using distinct_map by blast
  then show ?thesis
    unfolding eq .
qed

subsubsection \<open>The fusion with semantic_weight = 0\<close>

lemma update_present:
  assumes "map_of m k = Some old"
  shows "\<exists>m1 m2. m = m1 @ (k, old) # m2 \<and> k \<notin> fst ` set m1
           \<and> AList.update k v m = m1 @ (k, v) # m2"
  using assms
proof (induction m)
  case Nil
  then show ?case by simp
next
  case (Cons p m)
  show ?case
  proof (cases "fst p = k")
    case True
    with Cons.prems have "p = (k, old)" by (cases p) simp
    then have "p # m = [] @ (k, old) # m \<and> k \<notin> fst ` set []
        \<and> AList.update k v (p # m) = [] @ (k, v) # m" by simp
    then show ?thesis by blast
  next
    case False
    with Cons.prems have "map_of m k = Some old" by (cases p) (simp split: if_splits)
    from Cons.IH [OF this] obtain m1 m2 where
      "m = m1 @ (k, old) # m2" "k \<notin> fst ` set m1" "AList.update k v m = m1 @ (k, v) # m2"
      by blast
    with False have "p # m = (p # m1) @ (k, old) # m2 \<and> k \<notin> fst ` set (p # m1)
        \<and> AList.update k v (p # m) = (p # m1) @ (k, v) # m2" by auto
    then show ?thesis by blast
  qed
qed

lemma filter_keys_insert:
  assumes "k \<notin> fst ` set m"
  shows "filter (\<lambda>p. fst p \<notin> insert k K) m = filter (\<lambda>p. fst p \<notin> K) m"
    and "filter (\<lambda>p. fst p \<noteq> k \<and> fst p \<notin> K) m = filter (\<lambda>p. fst p \<notin> K) m"
  using assms by (auto intro!: filter_cong)

lemma update_present_values:
  assumes "distinct (map fst m)" and "map_of m k = Some old" and "k \<notin> K"
  shows "mset (map snd (filter (\<lambda>p. fst p \<notin> K) (AList.update k v m)))
           = {#v#} + mset (map snd (filter (\<lambda>p. fst p \<notin> insert k K) m))"
    and "set (AList.update k v m) \<subseteq> insert (k, v) {p \<in> set m. fst p \<noteq> k}"
proof -
  from update_present [OF assms(2), of v] obtain m1 m2 where
    m: "m = m1 @ (k, old) # m2" and m1: "k \<notin> fst ` set m1"
    and upd: "AList.update k v m = m1 @ (k, v) # m2" by blast
  from assms(1) have m2: "k \<notin> fst ` set m2" by (auto simp: m)
  show "mset (map snd (filter (\<lambda>p. fst p \<notin> K) (AList.update k v m)))
           = {#v#} + mset (map snd (filter (\<lambda>p. fst p \<notin> insert k K) m))"
    unfolding upd using assms(3)
    by (simp add: m filter_keys_insert [OF m1] filter_keys_insert [OF m2])
  show "set (AList.update k v m) \<subseteq> insert (k, v) {p \<in> set m. fst p \<noteq> k}"
    unfolding upd unfolding m using m1 m2 by auto
qed

lemma merge_keyword_zero_values:
  assumes "distinct (map fst m)" and "distinct (map result_id kw)"
    and "\<forall>p \<in> set m. \<forall>r \<in> set kw. result_id r = fst p \<longrightarrow>
            (snd p)\<lparr> score := score (snd p) + score r \<rparr> = r"
  shows "mset (map snd (merge_keyword 0 kw m))
           = mset kw + mset (map snd (filter (\<lambda>p. fst p \<notin> result_id ` set kw) m))"
  using assms
proof (induction kw arbitrary: m)
  case Nil
  then show ?case by simp
next
  case (Cons r kw)
  let ?K = "result_id ` set kw"
  from Cons.prems(2) have fresh: "result_id r \<notin> ?K" and dkw: "distinct (map result_id kw)"
    by auto
  have fresh': "\<forall>r' \<in> set kw. result_id r' \<noteq> result_id r"
    using fresh by (metis image_eqI)
  show ?case
  proof (cases "map_of m (result_id r)")
    case None
    then have nokey: "result_id r \<notin> fst ` set m" by (simp add: map_of_eq_None_iff)
    let ?m' = "m @ [(result_id r, r)]"
    have step: "merge_keyword 0 (r # kw) m = merge_keyword 0 kw ?m'"
      using None update_fresh [OF nokey] by simp
    have "mset (map snd (merge_keyword 0 kw ?m'))
           = mset kw + mset (map snd (filter (\<lambda>p. fst p \<notin> ?K) ?m'))"
    proof (rule Cons.IH [OF _ dkw])
      show "distinct (map fst ?m')" using Cons.prems(1) nokey by auto
      show "\<forall>p \<in> set ?m'. \<forall>r' \<in> set kw. result_id r' = fst p \<longrightarrow>
            (snd p)\<lparr> score := score (snd p) + score r' \<rparr> = r'"
        using Cons.prems(3) fresh' by auto
    qed
    also have "mset (map snd (filter (\<lambda>p. fst p \<notin> ?K) ?m'))
        = {#r#} + mset (map snd (filter (\<lambda>p. fst p \<notin> insert (result_id r) ?K) m))"
      using fresh by (simp add: filter_keys_insert [OF nokey])
    finally show ?thesis unfolding step by simp
  next
    case (Some old)
    then have "(result_id r, old) \<in> set m" by (rule map_of_SomeD)
    with Cons.prems(3) have old: "old\<lparr> score := score old + score r \<rparr> = r" by force
    let ?m' = "AList.update (result_id r) r m"
    have step: "merge_keyword 0 (r # kw) m = merge_keyword 0 kw ?m'"
      using Some old by simp
    note upd = update_present_values [OF Cons.prems(1) Some fresh, of r]
    have "mset (map snd (merge_keyword 0 kw ?m'))
           = mset kw + mset (map snd (filter (\<lambda>p. fst p \<notin> ?K) ?m'))"
    proof (rule Cons.IH [OF _ dkw])
      show "distinct (map fst ?m')" using Cons.prems(1) by (rule distinct_update)
      show "\<forall>p \<in> set ?m'. \<forall>r' \<in> set kw. result_id r' = fst p \<longrightarrow>
            (snd p)\<lparr> score := score (snd p) + score r' \<rparr> = r'"
      proof (intro ballI impI)
        fix p r'
        assume p: "p \<in> set ?m'" and r': "r' \<in> set kw" and eq: "result_id r' = fst p"
        from p upd(2) have "p = (result_id r, r) \<or> p \<in> set m" by auto
        then show "(snd p)\<lparr> score := score (snd p) + score r' \<rparr> = r'"
        proof
          assume "p = (result_id r, r)"
          with eq r' fresh' show ?thesis by auto
        next
          assume "p \<in> set m"
          with Cons.prems(3) r' eq show ?thesis by auto
        qed
      qed
    qed
    with upd(1) show ?thesis unfolding step by simp
  qed
qed

lemma sort_desc_scores:
  assumes v: "mset v = mset kw + mset z"
    and sorted: "sorted (map (\<lambda>r. - score r) kw)"
    and pos: "\<forall>r \<in> set kw. 0 < score r"
    and zero: "\<forall>r \<in> set z. score r = (0::real)"
    and n: "n \<le> length kw"
  shows "map score (take n (sort_desc score v)) = map score (take n kw)"
    and "set (take n (sort_desc score v)) \<subseteq> set kw"
proof -
  let ?f = "\<lambda>r. - score r"
  let ?s = "sort_key ?f v"
  have "sort (map ?f v) = map ?f ?s"
    by (rule properties_for_sort) simp_all
  moreover have "sort (map ?f v) = map ?f kw @ map ?f z"
  proof (rule properties_for_sort)
    show "mset (map ?f kw @ map ?f z) = mset (map ?f v)"
      by (simp add: v)
    have "sorted (map ?f z)"
      using zero by (simp add: sorted_iff_nth_mono)
    with sorted pos zero show "sorted (map ?f kw @ map ?f z)"
      by (auto simp: sorted_append less_imp_le)
  qed
  ultimately have keys: "map ?f ?s = map ?f kw @ map ?f z" by simp
  then have "take n (map ?f ?s) = take n (map ?f kw)" using n by simp
  then have "map ?f (take n ?s) = map ?f (take n kw)" by (simp add: take_map)
  then have "map (\<lambda>x. - x) (map ?f (take n ?s)) = map (\<lambda>x. - x) (map ?f (take n kw))"
    by (rule arg_cong)
  then show "map score (take n (sort_desc score v)) = map score (take n kw)"
    by (simp add: sort_desc_def comp_def)
  show "set (take n (sort_desc score v)) \<subseteq> set kw"
  proof
    fix x
    assume "x \<in> set (take n (sort_desc score v))"
    then obtain i where i: "i < n" "i < length ?s" and x: "x = ?s ! i"
      by (auto simp: in_set_conv_nth sort_desc_def)
    from i n have "?f x = (map ?f ?s) ! i" by (simp add: x)
    also from i n have "\<dots> = ?f (kw ! i)" by (simp add: keys nth_append)
    finally have "score x = score (kw ! i)" by simp
    with pos i n have "0 < score x" by simp
    moreover from i have "x \<in> set ?s" unfolding x by (intro nth_mem)
    then have "x \<in># mset v" by simp
    then have "x \<in> set kw \<or> x \<in> set z" by (simp add: v)
    ultimately show "x \<in> set kw" using zero by auto
  qed
qed

lemma retrieve_plain_origin:
  assumes "retrieve self q k t False = Inr rs" and "r \<in> set rs"
  shows "\<exists>i s. i < length (chunks self) \<and> r = result_of (chunks self ! i) i s"
proof -
  from retrieve_plain_nearest [OF assms(1)] obtain ix qe where
    rs: "rs = take (nat k) (to_results (chunks self) t
                      (take (nat k) (sort_key fst (scored_rows ix qe))))"
    by blast
  from assms(2) have "r \<in> set (to_results (chunks self) t
                      (take (nat k) (sort_key fst (scored_rows ix qe))))"
    unfolding rs by (rule in_set_takeD)
  from to_results_origin [OF this] obtain dd i where
    "0 \<le> i" "i < int (length (chunks self))"
    "r = result_of (chunks self ! nat i) (nat i) (1 / (1 + dd))" by blast
  then have "nat i < length (chunks self) \<and> r = result_of (chunks self ! nat i) (nat i) (1 / (1 + dd))"
    by linarith
  then show ?thesis by blast
qed

lemma same_id_same_chunk:
  assumes "distinct (chunk_ids cs)" and "i < length cs" and "j < length cs"
    and "result_id (result_of (cs ! i) i a) = result_id (result_of (cs ! j) j b)"
  shows "i = j"
  using assms by (simp add: chunk_ids_nth nth_eq_iff_index_eq)

lemma result_of_score_update: "(result_of c i a)\<lparr> score := b \<rparr> = result_of c i b"
  by (simp add: result_of_def)

lemma hybrid_zero_form:
  assumes sem: "retrieve self q (k * 2) t False = Inr sem"
    and ids: "distinct (chunk_ids (chunks self))"
    and n: "nat k \<le> length (keyword_search self q (k * 2))"
  shows "\<exists>rs. hybrid_retrieve self q k t rr 0 = Inr rs
           \<and> map score rs = map score (keyword_search self q k)
           \<and> set rs \<subseteq> set (keyword_search self q (k * 2))"
proof -
  from retrieve_positive_k [OF sem] have k: "0 < k" "0 \<le> k * 2" by simp_all
  let ?kw = "keyword_search self q (k * 2)"
  let ?m = "map (\<lambda>r. (result_id r, r\<lparr> score := 0 \<rparr>)) sem"
  let ?z = "map snd (filter (\<lambda>p. fst p \<notin> result_id ` set ?kw) ?m)"
  have dsem: "distinct (map result_id sem)"
    using sem ids by (rule retrieve_plain_ids_distinct)
  have m1: "merge_semantic 0 sem [] = ?m"
    using merge_semantic_fresh [OF dsem, of "[]" 0] by simp
  have dm: "distinct (map fst ?m)"
    using dsem by (simp add: comp_def)
  have dkw: "distinct (map result_id ?kw)"
    using k(2) ids by (rule keyword_search_ids_distinct)
  have consistent: "\<forall>p \<in> set ?m. \<forall>r \<in> set ?kw. result_id r = fst p \<longrightarrow>
            (snd p)\<lparr> score := score (snd p) + score r \<rparr> = r"
  proof (intro ballI impI)
    fix p r
    assume p: "p \<in> set ?m" and r: "r \<in> set ?kw" and eq: "result_id r = fst p"
    from p obtain s where s: "s \<in> set sem" and ps: "p = (result_id s, s\<lparr> score := 0 \<rparr>)"
      by auto
    from retrieve_plain_origin [OF sem s] obtain i a where
      i: "i < length (chunks self)" and s': "s = result_of (chunks self ! i) i a" by blast
    from keyword_search_origin [OF k(2) r] obtain j b where
      j: "j < length (chunks self)" and r': "r = result_of (chunks self ! j) j b" by blast
    from eq have "result_id (result_of (chunks self ! i) i a)
        = result_id (result_of (chunks self ! j) j b)"
      by (simp add: ps s' r')
    from same_id_same_chunk [OF ids i j this] have "i = j" .
    then show "(snd p)\<lparr> score := score (snd p) + score r \<rparr> = r"
      by (simp add: ps s' r' result_of_def)
  qed
  have vals: "mset (map snd (merge_keyword 0 ?kw ?m)) = mset ?kw + mset ?z"
    using dm dkw consistent by (rule merge_keyword_zero_values)
  have zero: "\<forall>r \<in> set ?z. score r = 0" by auto
  have pos: "\<forall>r \<in> set ?kw. 0 < score r"
  proof
    fix r
    assume "r \<in> set ?kw"
    from keyword_search_origin [OF k(2) this] show "0 < score r" by auto
  qed
  note desc = keyword_search_sorted [OF k(2), of self q]
  note cut = sort_desc_scores [OF vals desc pos zero n]
  have run: "hybrid_retrieve self q k t rr 0
      = Inr (take (nat k) (sort_desc score (map snd (merge_keyword 0 ?kw ?m))))"
    using k by (simp add: hybrid_retrieve_def sem m1 Let_def slice_to_nonneg)
  have "map score (take (nat k) ?kw) = map score (keyword_search self q k)"
    using keyword_search_prefix [OF k(1), of self q] by simp
  with cut run show ?thesis by simp
qed

lemma demo_semantic:
  "retrieve demo_retriever ''alpha'' (1 * 2) 0 False =
     Inr [\<lparr>result_id = ''c1'', result_content = ''alpha gamma'', score = 1, result_metadata = []\<rparr>,
          \<lparr>result_id = ''c0'', result_content = ''alpha beta'', score = 1 / 26, result_metadata = []\<rparr>]"
  by code_simp

lemma demo_keyword:
  "keyword_search demo_retriever ''alpha'' (1 * 2) =
     [\<lparr>result_id = ''c0'', result_content = ''alpha beta'', score = 1, result_metadata = []\<rparr>,
      \<lparr>result_id = ''c1'', result_content = ''alpha gamma'', score = 1, result_metadata = []\<rparr>]"
  by code_simp

lemma demo_ids: "distinct (chunk_ids (chunks demo_retriever))"
  by code_simp

text \<open>
  Claim C4 says that \<open>semantic_weight=1.0\<close> gives the result of the semantic search alone
  and \<open>semantic_weight=0.0\<close> the ordering of the keyword search.  The fusion is a union:
  a chunk found by one search only stays in the result with the other search counted
  as 0, and the fused list is sorted from the dictionary's insertion order, semantic
  results first.  What holds, for chunk records with distinct ids and a semantic
  search (with \<open>top_k * 2\<close> candidates, no reranking) that returns \<open>sem\<close>:
  \<^item> with weight 1 the result is the first \<open>top_k\<close> of \<open>sem\<close> followed by results whose
    fused score is 0; so it is the first \<open>top_k\<close> of \<open>sem\<close> when \<open>sem\<close> has at
    least \<open>top_k\<close> results, and then it equals \<open>retrieve\<close> with the same \<open>top_k\<close> and
    threshold and without reranking, provided that every vector of the index has a
    chunk record;
  \<^item> with weight 0, when the keyword search (with \<open>top_k * 2\<close>) finds at least \<open>top_k\<close>
    matches, the result consists of \<open>top_k\<close> of these matches with their keyword scores,
    and its sequence of scores is that of the keyword search with \<open>top_k\<close>; the order
    among matches of equal score is not fixed by the keyword search.
\<close>

theorem hybrid_boundaries:
  assumes ids: "distinct (chunk_ids (chunks self))"
    and sem: "retrieve self q (k * 2) t False = Inr sem"
  shows "(\<exists>zeros. (\<forall>z \<in> set zeros. score z = 0)
            \<and> hybrid_retrieve self q k t rr 1 = Inr (take (nat k) (sem @ zeros)))
       \<and> (nat k \<le> length sem \<longrightarrow> hybrid_retrieve self q k t rr 1 = Inr (take (nat k) sem))
       \<and> (nat k \<le> length sem \<and> index self = Some ix \<and> length (xb ix) \<le> length (chunks self)
            \<longrightarrow> hybrid_retrieve self q k t rr 1 = retrieve self q k t False)
       \<and> (nat k \<le> length (keyword_search self q (k * 2))
            \<longrightarrow> (\<exists>rs. hybrid_retrieve self q k t rr 0 = Inr rs
                   \<and> map score rs = map score (keyword_search self q k)
                   \<and> set rs \<subseteq> set (keyword_search self q (k * 2))))"
proof -
  have dsem: "distinct (map result_id sem)"
    using sem ids by (rule retrieve_plain_ids_distinct)
  from hybrid_one_form [OF sem dsem, of rr] obtain zeros where
    zeros: "\<forall>z \<in> set zeros. score z = 0"
    and one: "hybrid_retrieve self q k t rr 1 = Inr (take (nat k) (sem @ zeros))" by blast
  have cut: "hybrid_retrieve self q k t rr 1 = Inr (take (nat k) sem)" if "nat k \<le> length sem"
    using that one by simp
  have pure: "hybrid_retrieve self q k t rr 1 = retrieve self q k t False"
    if "nat k \<le> length sem" "index self = Some ix" "length (xb ix) \<le> length (chunks self)"
    using cut [OF that(1)] retrieve_plain_prefix [OF sem that(2,3)] by simp
  from zeros one cut pure hybrid_zero_form [OF sem ids, of rr]
  show ?thesis by blast
qed

theorem hybrid_boundaries_witness:
  "hybrid_retrieve demo_retriever ''alpha'' 1 0 True 1 = retrieve demo_retriever ''alpha'' 1 0 False
   \<and> (\<exists>rs. hybrid_retrieve demo_retriever ''alpha'' 1 0 True 0 = Inr rs
         \<and> map score rs = map score (keyword_search demo_retriever ''alpha'' 1)
         \<and> set rs \<subseteq> set (keyword_search demo_retriever ''alpha'' (1 * 2)))"
proof -
  let ?ix = "\<lparr> d = 1, xb = [[5], [0]] \<rparr>"
  let ?sem = "[\<lparr>result_id = ''c1'', result_content = ''alpha gamma'', score = 1, result_metadata = []\<rparr>,
          \<lparr>result_id = ''c0'', result_content = ''alpha beta'', score = 1 / 26, result_metadata = []\<rparr>]"
  have loaded: "index demo_retriever = Some ?ix \<and> length (xb ?ix) \<le> length (chunks demo_retriever)"
    by (simp add: demo_retriever_def)
  have enough: "nat 1 \<le> length ?sem" by simp
  have matches: "nat 1 \<le> length (keyword_search demo_retriever ''alpha'' (1 * 2))"
    unfolding demo_keyword by simp
  from hybrid_boundaries [OF demo_ids demo_semantic, of True ?ix] loaded enough matches
  show ?thesis by blast
qed

text \<open>
  The retriever with two chunks, query \<open>alpha\<close>, \<open>top_k = 5\<close>.  With threshold 1/2 the
  semantic search alone returns the chunk \<open>c1\<close>, and the hybrid retrieval with weight 1
  returns \<open>c1\<close> and, with score 0, the keyword match \<open>c0\<close>.  With threshold 0 the
  keyword search returns \<open>c0, c1\<close> (equal scores, chunk order), and the hybrid
  retrieval with weight 0 returns \<open>c1, c0\<close> (semantic order).
\<close>

theorem hybrid_boundaries_counterexample:
  "retrieve demo_retriever ''alpha'' 5 (1 / 2) False =
     Inr [\<lparr>result_id = ''c1'', result_content = ''alpha gamma'', score = 1, result_metadata = []\<rparr>]
   \<and> hybrid_retrieve demo_retriever ''alpha'' 5 (1 / 2) True 1 =
     Inr [\<lparr>result_id = ''c1'', result_content = ''alpha gamma'', score = 1, result_metadata = []\<rparr>,
          \<lparr>result_id = ''c0'', result_content = ''alpha beta'', score = 0, result_metadata = []\<rparr>]
   \<and> keyword_search demo_retriever ''alpha'' 5 =
     [\<lparr>result_id = ''c0'', result_content = ''alpha beta'', score = 1, result_metadata = []\<rparr>,
      \<lparr>result_id = ''c1'', result_content = ''alpha gamma'', score = 1, result_metadata = []\<rparr>]
   \<and> hybrid_retrieve demo_retriever ''alpha'' 5 0 True 0 =
     Inr [\<lparr>result_id = ''c1'', result_content = ''alpha gamma'', score = 1, result_metadata = []\<rparr>,
          \<lparr>result_id = ''c0'', result_content = ''alpha beta'', score = 1, result_metadata = []\<rparr>]"
  by code_simp

end
